theory Spec2Isabelle
  imports Main "HOL-Library.AList" "HOL-Library.Sublist" "HOL-Library.Word"
begin

section \<open>The copy-on-write trie of primer/trie.cpp\<close>

text \<open>
  The trie of \<^verbatim>\<open>src/primer/trie.cpp\<close> is a tree of reference-counted nodes.  \<^verbatim>\<open>Put\<close>
  and \<^verbatim>\<open>Remove\<close> allocate new nodes, assign to the \<^verbatim>\<open>children_\<close> field of nodes they
  have just allocated, and share every other node with the trie they started from.  To
  make that sharing and those assignments visible, the nodes live in an explicit store:
  a list of nodes, an address being an index into it.  \<^verbatim>\<open>std::make_shared\<close> appends a
  node to the store; nothing is ever deallocated, which is what a live
  \<^verbatim>\<open>std::shared_ptr\<close> guarantees for every node still referenced.
\<close>

subsection \<open>Stored values\<close>

text \<open>
  \<^verbatim>\<open>Put\<close> and \<^verbatim>\<open>Get\<close> are templates over the value type \<^verbatim>\<open>T\<close>; lines 170-187
  instantiate them at \<^verbatim>\<open>uint32_t\<close>, \<^verbatim>\<open>uint64_t\<close>, \<^verbatim>\<open>std::string\<close>,
  \<^verbatim>\<open>Integer = std::unique_ptr<uint32_t>\<close> (which may hold no integer) and
  \<^verbatim>\<open>MoveBlocked\<close>.  A stored value is a value of one of these types, and the
  dynamic type of a \<^verbatim>\<open>TrieNodeWithValue<T>\<close> is the type of the value it holds.
  The class \<^verbatim>\<open>MoveBlocked\<close> is declared in \<^verbatim>\<open>primer/trie.h\<close>; the trie only stores
  such an object, so it carries no data here.
\<close>

datatype vtype = T_uint32 | T_uint64 | T_string | T_Integer | T_MoveBlocked

datatype val =
    V_uint32 "32 word"
  | V_uint64 "64 word"
  | V_string string
  | V_Integer "32 word option"
  | V_MoveBlocked

fun type_of :: "val \<Rightarrow> vtype" where
  "type_of (V_uint32 _) = T_uint32"
| "type_of (V_uint64 _) = T_uint64"
| "type_of (V_string _) = T_string"
| "type_of (V_Integer _) = T_Integer"
| "type_of V_MoveBlocked = T_MoveBlocked"

subsection \<open>Nodes, the store and the trie handle\<close>

text \<open>
  Modelled from the spec: the classes \<^verbatim>\<open>TrieNode\<close>, \<^verbatim>\<open>TrieNodeWithValue<T>\<close> and
  \<^verbatim>\<open>Trie\<close> are declared in \<^verbatim>\<open>primer/trie.h\<close>, which is not among the sources.  By
  sections 3 and 4.1 of the specification a node holds a mapping from byte to child
  node and the flag \<^verbatim>\<open>is_value_node_\<close>, a value node holds a value besides, the flag is
  true iff the node is a value node, a node without the flag never carries a value, and
  \<^verbatim>\<open>Clone()\<close> returns a new node with the same children mapping and the same value and
  flag.  A node is therefore a record of its children and an optional value, and the
  flag is read off the value.

  The \<^verbatim>\<open>std::map<char, std::shared_ptr<const TrieNode>>\<close> is an association list; the
  code only copies it and calls \<^verbatim>\<open>find\<close>, \<^verbatim>\<open>operator[]\<close>, \<^verbatim>\<open>erase\<close> and
  \<^verbatim>\<open>empty\<close> on it, never iterates over it, so the order of its entries is not
  observable.
\<close>

type_synonym addr = nat

record TrieNode =
  children :: "(char \<times> addr) list"
  node_value :: "val option"

type_synonym heap = "TrieNode list"

record Trie =
  root :: "addr option"

definition is_value_node :: "TrieNode \<Rightarrow> bool" where
  "is_value_node n = (node_value n \<noteq> None)"

text \<open>The constructors \<^verbatim>\<open>TrieNode()\<close>, \<^verbatim>\<open>TrieNode(children)\<close>,
  \<^verbatim>\<open>TrieNodeWithValue<T>(value)\<close>, \<^verbatim>\<open>TrieNodeWithValue<T>(children, value)\<close> and the
  virtual \<^verbatim>\<open>Clone()\<close>.\<close>

definition TrieNode_default :: TrieNode where
  "TrieNode_default = \<lparr>children = [], node_value = None\<rparr>"

definition TrieNode_of :: "(char \<times> addr) list \<Rightarrow> TrieNode" where
  "TrieNode_of m = \<lparr>children = m, node_value = None\<rparr>"

definition TrieNodeWithValue_leaf :: "val \<Rightarrow> TrieNode" where
  "TrieNodeWithValue_leaf v = \<lparr>children = [], node_value = Some v\<rparr>"

definition TrieNodeWithValue :: "(char \<times> addr) list \<Rightarrow> val \<Rightarrow> TrieNode" where
  "TrieNodeWithValue m v = \<lparr>children = m, node_value = Some v\<rparr>"

definition Clone :: "TrieNode \<Rightarrow> TrieNode" where
  "Clone n = \<lparr>children = children n, node_value = node_value n\<rparr>"

text \<open>\<^verbatim>\<open>std::dynamic_pointer_cast<const TrieNodeWithValue<T>>\<close>: the value when the node is
  a value node of type \<^verbatim>\<open>T\<close>, and the null pointer otherwise.\<close>

definition dynamic_pointer_cast :: "vtype \<Rightarrow> TrieNode \<Rightarrow> val option" where
  "dynamic_pointer_cast T n =
     (case node_value n of
        None \<Rightarrow> None
      | Some v \<Rightarrow> if type_of v = T then Some v else None)"

text \<open>The operations on \<^verbatim>\<open>std::map\<close> that the code uses.\<close>

definition map_find :: "(char \<times> addr) list \<Rightarrow> char \<Rightarrow> addr option" where
  "map_find m ch = map_of m ch"

definition map_assign :: "(char \<times> addr) list \<Rightarrow> char \<Rightarrow> addr \<Rightarrow> (char \<times> addr) list" where
  "map_assign m ch a = AList.update ch a m"

definition map_erase :: "(char \<times> addr) list \<Rightarrow> char \<Rightarrow> (char \<times> addr) list" where
  "map_erase m ch = AList.delete ch m"

definition map_is_empty :: "(char \<times> addr) list \<Rightarrow> bool" where
  "map_is_empty m = (m = [])"

text \<open>\<^verbatim>\<open>std::make_shared\<close> allocates the node at the next free address.\<close>

definition make_shared :: "heap \<Rightarrow> TrieNode \<Rightarrow> heap \<times> addr" where
  "make_shared h n = (h @ [n], length h)"

text \<open>The assignments \<^verbatim>\<open>p->children_ = m\<close>, \<^verbatim>\<open>p->children_[ch] = q\<close> and
  \<^verbatim>\<open>p->children_.erase(ch)\<close> on the node at address \<^verbatim>\<open>p\<close>.\<close>

definition set_children :: "heap \<Rightarrow> addr \<Rightarrow> (char \<times> addr) list \<Rightarrow> heap" where
  "set_children h p m = h[p := (h ! p)\<lparr>children := m\<rparr>]"

definition assign_child :: "heap \<Rightarrow> addr \<Rightarrow> char \<Rightarrow> addr \<Rightarrow> heap" where
  "assign_child h p ch q = set_children h p (map_assign (children (h ! p)) ch q)"

definition erase_child :: "heap \<Rightarrow> addr \<Rightarrow> char \<Rightarrow> heap" where
  "erase_child h p ch = set_children h p (map_erase (children (h ! p)) ch)"

subsection \<open>Machine integers\<close>

text \<open>
  \<^verbatim>\<open>Put\<close> (lines 106-120) and \<^verbatim>\<open>Remove\<close> (line 147) count in \<^verbatim>\<open>int\<close>, a 32-bit
  two's complement integer, and narrow sizes with \<^verbatim>\<open>static_cast<int>\<close>.  An \<^verbatim>\<open>int\<close> is
  an integer with the wrap-around written out; reading \<^verbatim>\<open>key[i]\<close> or \<^verbatim>\<open>nodes[i]\<close>
  outside the sequence has no defined result and is the value \<open>None\<close> of the model.
  The narrowing of a size above \<open>2\<^sup>3\<^sup>1 - 1\<close> is the value modulo \<open>2\<^sup>3\<^sup>2\<close>, as C++20
  defines it and as the compilers before it implement it.  The evaluations on a long key
  below use a key of \<open>2\<^sup>3\<^sup>1 + 1\<close> bytes, for which no \<^verbatim>\<open>int\<close> operation overflows:
  the narrowed size is \<open>- 2\<^sup>3\<^sup>1 + 1\<close> and the code subtracts one from it.
\<close>

definition to_int32 :: "int \<Rightarrow> int" where
  "to_int32 x = (x + 2147483648) mod 4294967296 - 2147483648"

definition static_cast_int :: "nat \<Rightarrow> int" where
  "static_cast_int n = to_int32 (int n)"

definition at_index :: "'a list \<Rightarrow> int \<Rightarrow> 'a option" where
  "at_index xs i = (if 0 \<le> i \<and> nat i < length xs then Some (xs ! nat i) else None)"

subsection \<open>Get\<close>

text \<open>The loop of lines 19-26: follow the child for each byte of the key.\<close>

fun get_walk :: "heap \<Rightarrow> addr \<Rightarrow> string \<Rightarrow> addr option" where
  "get_walk h cur [] = Some cur"
| "get_walk h cur (ch # key) =
     (case map_find (children (h ! cur)) ch of
        Some child \<Rightarrow> get_walk h child key
      | None \<Rightarrow> None)"

definition Get :: "heap \<Rightarrow> Trie \<Rightarrow> vtype \<Rightarrow> string \<Rightarrow> val option" where
  "Get h t T key =
     (case root t of
        None \<Rightarrow> None
      | Some r \<Rightarrow>
          (case get_walk h r key of
             None \<Rightarrow> None
           | Some cur \<Rightarrow>
               if is_value_node (h ! cur) then
                 (case dynamic_pointer_cast T (h ! cur) of
                    None \<Rightarrow> None
                  | Some v \<Rightarrow> Some v)
               else None))"

subsection \<open>Put\<close>

text \<open>Lines 59-70, the empty trie: a chain of fresh nodes below \<^verbatim>\<open>curr\<close>, one for each
  byte, the last one holding the value.  The recursion carries the bytes from
  \<^verbatim>\<open>key[i]\<close> on; \<^verbatim>\<open>i != key.size() - 1\<close> says that bytes remain after \<^verbatim>\<open>key[i]\<close>.\<close>

fun put_empty_loop :: "heap \<Rightarrow> addr \<Rightarrow> string \<Rightarrow> val \<Rightarrow> heap" where
  "put_empty_loop h cur [] v = h"
| "put_empty_loop h cur (ch # key) v =
     (let (h1, child) =
            (if key \<noteq> [] then make_shared h TrieNode_default
             else make_shared h (TrieNodeWithValue_leaf v));
          h2 = set_children h1 cur [];
          h3 = assign_child h2 cur ch child
      in put_empty_loop h3 child key v)"

text \<open>Lines 74-85: walk down the existing path and collect the nodes visited below the
  root; the second component is what is left of the key where the walk stopped
  (\<^verbatim>\<open>it == key.end()\<close> iff nothing is left).\<close>

fun put_walk :: "heap \<Rightarrow> addr \<Rightarrow> string \<Rightarrow> addr list \<Rightarrow> addr list \<times> string" where
  "put_walk h cur [] nodes = (nodes, [])"
| "put_walk h cur (ch # key) nodes =
     (case map_find (children (h ! cur)) ch of
        None \<Rightarrow> (nodes, ch # key)
      | Some child \<Rightarrow> put_walk h child key (nodes @ [child]))"

text \<open>Lines 92-102, the whole key was walked: clone \<^verbatim>\<open>nodes[i]\<close> for every byte but
  the last, make a value node with the children of \<^verbatim>\<open>nodes[i]\<close> for the last, and
  link each new node into its new parent.  The recursion carries the bytes and the
  nodes from index \<^verbatim>\<open>i\<close> on.\<close>

fun put_found_loop :: "heap \<Rightarrow> addr \<Rightarrow> string \<Rightarrow> addr list \<Rightarrow> val \<Rightarrow> heap option" where
  "put_found_loop h parent [] nodes v = Some h"
| "put_found_loop h parent (ch # key) [] v = None"
| "put_found_loop h parent (ch # key) (nd # nodes) v =
     (let (h1, new_node) =
            (if key \<noteq> [] then make_shared h (Clone (h ! nd))
             else make_shared h (TrieNodeWithValue (children (h ! nd)) v));
          h2 = assign_child h1 parent ch new_node
      in put_found_loop h2 new_node key nodes v)"

text \<open>Lines 106-113, the walk stopped early: clone every node that was visited and
  count them in \<^verbatim>\<open>index\<close>.\<close>

fun put_prefix_loop ::
  "heap \<Rightarrow> addr \<Rightarrow> string \<Rightarrow> addr list \<Rightarrow> int \<Rightarrow> (heap \<times> addr \<times> int) option" where
  "put_prefix_loop h parent key [] index = Some (h, parent, index)"
| "put_prefix_loop h parent [] (nd # nodes) index = None"
| "put_prefix_loop h parent (ch # key) (nd # nodes) index =
     (let (h1, new_node) = make_shared h (Clone (h ! nd));
          h2 = assign_child h1 parent ch new_node
      in put_prefix_loop h2 new_node key nodes (to_int32 (index + 1)))"

text \<open>Lines 114-120: fresh nodes for the bytes \<^verbatim>\<open>key[index]\<close> up to the last but
  one.\<close>

function put_fresh_loop :: "heap \<Rightarrow> addr \<Rightarrow> string \<Rightarrow> int \<Rightarrow> (heap \<times> addr) option" where
  "put_fresh_loop h parent key index =
     (if index < to_int32 (static_cast_int (length key) - 1) then
        (case at_index key index of
           None \<Rightarrow> None
         | Some ch \<Rightarrow>
             (let (h1, child) = make_shared h TrieNode_default;
                  h2 = assign_child h1 parent ch child
              in put_fresh_loop h2 child key (to_int32 (index + 1))))
      else Some (h, parent))"
  by pat_completeness auto
termination
proof (relation "measure (\<lambda>(h, parent, key, index).
         nat (to_int32 (static_cast_int (length key) - 1) - index))", goal_cases)
  case 1
  show ?case by simp
next
  case (2 h parent key index ch x h1 child)
  have "0 \<le> index"
    using 2 by (simp add: at_index_def split: if_splits)
  moreover have "to_int32 (static_cast_int (length key) - 1) < 2147483648"
    by (simp add: to_int32_def)
  ultimately have "to_int32 (index + 1) = index + 1"
    using 2 by (simp add: to_int32_def)
  then show ?case
    using 2 by simp
qed

declare put_fresh_loop.simps [simp del]

definition Put :: "heap \<Rightarrow> Trie \<Rightarrow> string \<Rightarrow> val \<Rightarrow> (heap \<times> Trie) option" where
  "Put h t key v =
     (if key = [] then
        (case root t of
           Some r \<Rightarrow>
             (let (h1, new_root) = make_shared h (TrieNodeWithValue (children (h ! r)) v)
              in Some (h1, \<lparr>root = Some new_root\<rparr>))
         | None \<Rightarrow>
             (let (h1, new_root) = make_shared h (TrieNodeWithValue_leaf v)
              in Some (h1, \<lparr>root = Some new_root\<rparr>)))
      else
        (case root t of
           None \<Rightarrow>
             (let (h1, new_root) = make_shared h TrieNode_default
              in Some (put_empty_loop h1 new_root key v, \<lparr>root = Some new_root\<rparr>))
         | Some r \<Rightarrow>
             (let (nodes, rest) = put_walk h r key [];
                  (h1, new_root) = make_shared h (Clone (h ! r))
              in if rest = [] then
                   (case put_found_loop h1 new_root key nodes v of
                      None \<Rightarrow> None
                    | Some h2 \<Rightarrow> Some (h2, \<lparr>root = Some new_root\<rparr>))
                 else
                   (case put_prefix_loop h1 new_root key nodes 0 of
                      None \<Rightarrow> None
                    | Some (h2, parent, index) \<Rightarrow>
                        (case put_fresh_loop h2 parent key index of
                           None \<Rightarrow> None
                         | Some (h3, parent') \<Rightarrow>
                             (let (h4, leaf) = make_shared h3 (TrieNodeWithValue_leaf v);
                                  h5 = assign_child h4 parent' (last key) leaf
                              in Some (h5, \<lparr>root = Some new_root\<rparr>)))))))"

subsection \<open>Remove\<close>

text \<open>Lines 132-141: walk the whole key, pushing each node before stepping to its
  child.  \<open>None\<close> when a byte has no child, where the code returns the trie as it
  is.\<close>

fun remove_walk :: "heap \<Rightarrow> addr \<Rightarrow> string \<Rightarrow> addr list \<Rightarrow> (addr list \<times> addr) option" where
  "remove_walk h cur [] nodes = Some (nodes, cur)"
| "remove_walk h cur (ch # key) nodes =
     (case map_find (children (h ! cur)) ch of
        None \<Rightarrow> None
      | Some child \<Rightarrow> remove_walk h child key (nodes @ [cur]))"

text \<open>Lines 147-156: from the deepest visited node back to the root, clone
  \<^verbatim>\<open>nodes[i]\<close>, and erase the edge \<^verbatim>\<open>key[i]\<close> of the clone when the node below has no
  children and no value, or else point the edge to the node below.\<close>

function remove_loop :: "heap \<Rightarrow> string \<Rightarrow> addr list \<Rightarrow> addr \<Rightarrow> int \<Rightarrow> (heap \<times> addr) option" where
  "remove_loop h key nodes cur i =
     (if 0 \<le> i then
        (case at_index key i of
           None \<Rightarrow> None
         | Some ch \<Rightarrow>
             (case at_index nodes i of
                None \<Rightarrow> None
              | Some nd \<Rightarrow>
                  (let (h1, new_parent) = make_shared h (Clone (h ! nd));
                       h2 = (if map_is_empty (children (h1 ! cur)) \<and> \<not> is_value_node (h1 ! cur)
                             then erase_child h1 new_parent ch
                             else assign_child h1 new_parent ch cur)
                   in remove_loop h2 key nodes new_parent (to_int32 (i - 1)))))
      else Some (h, cur))"
  by pat_completeness auto
termination
proof (relation "measure (\<lambda>(h, key, nodes, cur, i). nat (i + 1))", goal_cases)
  case 1
  show ?case by simp
next
  case (2 h key nodes cur i ch nd x h1 new_parent)
  have "(i - 1 + 2147483648) mod 4294967296 \<le> i - 1 + 2147483648"
    using 2(1) by (intro zmod_le_nonneg_dividend) simp
  then have "to_int32 (i - 1) < i"
    by (simp add: to_int32_def)
  then show ?case
    using 2(1) by simp
qed

declare remove_loop.simps [simp del]

definition Remove :: "heap \<Rightarrow> Trie \<Rightarrow> string \<Rightarrow> (heap \<times> Trie) option" where
  "Remove h t key =
     (case root t of
        None \<Rightarrow> Some (h, \<lparr>root = None\<rparr>)
      | Some r \<Rightarrow>
          (case remove_walk h r key [] of
             None \<Rightarrow> Some (h, \<lparr>root = Some r\<rparr>)
           | Some (nodes, cur) \<Rightarrow>
               if \<not> is_value_node (h ! cur) then Some (h, \<lparr>root = Some r\<rparr>)
               else
                 (let (h1, cur1) = make_shared h (TrieNode_of (children (h ! cur)))
                  in (case remove_loop h1 key nodes cur1
                             (to_int32 (static_cast_int (length nodes) - 1)) of
                        None \<Rightarrow> None
                      | Some (h2, cur2) \<Rightarrow>
                          if map_is_empty (children (h2 ! cur2)) \<and> \<not> is_value_node (h2 ! cur2)
                          then Some (h2, \<lparr>root = None\<rparr>)
                          else Some (h2, \<lparr>root = Some cur2\<rparr>)))))"

section \<open>Well-formed stores and what a trie holds\<close>

text \<open>
  A \<^verbatim>\<open>std::shared_ptr\<close> always refers to a live node.  In the store this is the
  statement that every address held in a \<^verbatim>\<open>children_\<close> mapping, and the root of a trie,
  is an allocated address.
\<close>

definition closed_heap :: "heap \<Rightarrow> bool" where
  "closed_heap h = list_all (\<lambda>n. list_all (\<lambda>(c, b). b < length h) (children n)) h"

definition wf_trie :: "heap \<Rightarrow> Trie \<Rightarrow> bool" where
  "wf_trie h t = (closed_heap h \<and> (case root t of None \<Rightarrow> True | Some r \<Rightarrow> r < length h))"

text \<open>The value stored under a key below the node at an address, whatever its type;
  \<open>Get\<close> returns it when it has the requested type.\<close>

definition lookup :: "heap \<Rightarrow> addr \<Rightarrow> string \<Rightarrow> val option" where
  "lookup h a key = (case get_walk h a key of None \<Rightarrow> None | Some b \<Rightarrow> node_value (h ! b))"

definition contents :: "heap \<Rightarrow> Trie \<Rightarrow> string \<Rightarrow> val option" where
  "contents h t key = (case root t of None \<Rightarrow> None | Some r \<Rightarrow> lookup h r key)"

text \<open>Two stores agree on the nodes of the first, except for the node at one
  address.\<close>

definition differs_at :: "heap \<Rightarrow> addr \<Rightarrow> heap \<Rightarrow> bool" where
  "differs_at h p h' = (length h \<le> length h' \<and> (\<forall>a<length h. a \<noteq> p \<longrightarrow> h' ! a = h ! a))"

text \<open>The nodes met below an address when following the bytes of a key.\<close>

fun on_path :: "heap \<Rightarrow> addr \<Rightarrow> string \<Rightarrow> addr list \<Rightarrow> bool" where
  "on_path h a [] [] = True"
| "on_path h a (c # k) (n # ns) = (map_find (children (h ! a)) c = Some n \<and> on_path h n k ns)"
| "on_path h a _ _ = False"

text \<open>A dead node has no children and no value: the test of lines 150 and 157.  A
  trie is minimal when no dead node can be reached from its root.\<close>

definition dead :: "TrieNode \<Rightarrow> bool" where
  "dead n = (map_is_empty (children n) \<and> \<not> is_value_node n)"

definition no_dead :: "heap \<Rightarrow> addr \<Rightarrow> bool" where
  "no_dead h a = (\<forall>key b. get_walk h a key = Some b \<longrightarrow> \<not> dead (h ! b))"

definition minimal :: "heap \<Rightarrow> Trie \<Rightarrow> bool" where
  "minimal h t = (case root t of None \<Rightarrow> True | Some r \<Rightarrow> no_dead h r)"

text \<open>Invariants of the loops, for the proofs about dead nodes: no dead node below the
  children of a node; the children of a new node are old nodes that reach no dead node, or
  new nodes; every new node but one is in order and not dead.\<close>

definition children_ok :: "heap \<Rightarrow> addr \<Rightarrow> bool" where
  "children_ok h a = (\<forall>c b. map_find (children (h ! a)) c = Some b \<longrightarrow> no_dead h b)"

definition new_ok :: "heap \<Rightarrow> heap \<Rightarrow> addr \<Rightarrow> bool" where
  "new_ok h0 h a = (\<forall>c b. map_find (children (h ! a)) c = Some b \<longrightarrow>
     (b < length h0 \<and> no_dead h0 b) \<or> (length h0 \<le> b \<and> b < length h))"

definition good_except :: "heap \<Rightarrow> heap \<Rightarrow> addr \<Rightarrow> bool" where
  "good_except h0 h p = (\<forall>a. length h0 \<le> a \<and> a < length h \<longrightarrow>
     new_ok h0 h a \<and> (a \<noteq> p \<longrightarrow> \<not> dead (h ! a)))"

definition good :: "heap \<Rightarrow> heap \<Rightarrow> bool" where
  "good h0 h = (\<forall>a. length h0 \<le> a \<and> a < length h \<longrightarrow> new_ok h0 h a \<and> \<not> dead (h ! a))"

text \<open>Sequences of calls, each on the trie the call before returned, as a test of the
  interface makes them; \<open>Get_after\<close> starts from the empty trie in the empty store.\<close>

datatype trie_op = Put_op string val | Remove_op string

fun apply_op :: "heap \<times> Trie \<Rightarrow> trie_op \<Rightarrow> (heap \<times> Trie) option" where
  "apply_op (h, t) (Put_op key v) = Put h t key v"
| "apply_op (h, t) (Remove_op key) = Remove h t key"

fun run_ops :: "heap \<times> Trie \<Rightarrow> trie_op list \<Rightarrow> (heap \<times> Trie) option" where
  "run_ops s [] = Some s"
| "run_ops s (x # xs) = (case apply_op s x of None \<Rightarrow> None | Some s' \<Rightarrow> run_ops s' xs)"

definition Get_after :: "trie_op list \<Rightarrow> vtype \<Rightarrow> string \<Rightarrow> val option option" where
  "Get_after ops T key =
     (case run_ops ([], \<lparr>root = None\<rparr>) ops of
        None \<Rightarrow> None
      | Some (h, t) \<Rightarrow> Some (Get h t T key))"

text \<open>A key of \<open>2\<^sup>3\<^sup>1 + 1\<close> bytes, whose length \<^verbatim>\<open>static_cast<int>\<close> turns into a
  negative number.\<close>

definition giant_key :: string where
  "giant_key = replicate 2147483649 (CHR ''a'')"

section \<open>Basic facts\<close>

lemma to_int32_id: "- 2147483648 \<le> x \<Longrightarrow> x < 2147483648 \<Longrightarrow> to_int32 x = x"
  by (simp add: to_int32_def)

lemma closed_heapD:
  assumes "closed_heap h" and "a < length h" and "(c, b) \<in> set (children (h ! a))"
  shows "b < length h"
proof -
  have "h ! a \<in> set h" using assms(2) by simp
  then have "\<forall>x\<in>set (children (h ! a)). case x of (c, b) \<Rightarrow> b < length h"
    using assms(1) by (simp add: closed_heap_def list_all_iff)
  then show ?thesis using assms(3) by auto
qed

lemma closed_heapI:
  assumes "\<And>a c b. a < length h \<Longrightarrow> (c, b) \<in> set (children (h ! a)) \<Longrightarrow> b < length h"
  shows "closed_heap h"
  unfolding closed_heap_def list_all_iff
proof (intro ballI)
  fix n x
  assume "n \<in> set h" and x: "x \<in> set (children n)"
  then obtain a where a: "a < length h" "h ! a = n"
    by (auto simp: in_set_conv_nth)
  obtain c b where "x = (c, b)" by (cases x)
  then show "case x of (c, b) \<Rightarrow> b < length h"
    using assms [of a c b] a x by simp
qed

lemma closed_heap_child:
  "closed_heap h \<Longrightarrow> a < length h \<Longrightarrow> map_find (children (h ! a)) c = Some b \<Longrightarrow> b < length h"
  by (auto simp: map_find_def dest: map_of_SomeD closed_heapD)

lemma prefix_nth: "prefix h h' \<Longrightarrow> a < length h \<Longrightarrow> h' ! a = h ! a"
  by (auto simp: prefix_def nth_append)

lemma get_walk_ext:
  "closed_heap h \<Longrightarrow> prefix h h' \<Longrightarrow> a < length h \<Longrightarrow> get_walk h' a key = get_walk h a key"
proof (induction key arbitrary: a)
  case Nil
  then show ?case by simp
next
  case (Cons ch key)
  have eq: "h' ! a = h ! a" using Cons.prems prefix_nth by blast
  show ?case
  proof (cases "map_find (children (h ! a)) ch")
    case None
    then show ?thesis by (simp add: eq)
  next
    case (Some b)
    then have "b < length h" using Cons.prems closed_heap_child by blast
    then have "get_walk h' b key = get_walk h b key"
      using Cons by blast
    then show ?thesis using Some by (simp add: eq)
  qed
qed

lemma get_walk_range:
  "closed_heap h \<Longrightarrow> a < length h \<Longrightarrow> get_walk h a key = Some b \<Longrightarrow> b < length h"
proof (induction key arbitrary: a)
  case Nil
  then show ?case by simp
next
  case (Cons ch key)
  then show ?case
    by (auto split: option.splits dest: closed_heap_child)
qed

lemma get_walk_append:
  "get_walk h a (k1 @ k2) = (case get_walk h a k1 of None \<Rightarrow> None | Some b \<Rightarrow> get_walk h b k2)"
  by (induction k1 arbitrary: a) (auto split: option.splits)

lemma lookup_ext:
  assumes "closed_heap h" and "prefix h h'" and "a < length h"
  shows "lookup h' a key = lookup h a key"
proof -
  have w: "get_walk h' a key = get_walk h a key"
    using assms by (rule get_walk_ext)
  show ?thesis
  proof (cases "get_walk h a key")
    case None
    then show ?thesis using w by (simp add: lookup_def)
  next
    case (Some b)
    then have "b < length h" using assms get_walk_range by blast
    then have "h' ! b = h ! b" using assms(2) prefix_nth by blast
    then show ?thesis using Some w by (simp add: lookup_def)
  qed
qed

lemma Get_contents:
  "Get h t T key = (case contents h t key of None \<Rightarrow> None | Some v \<Rightarrow> if type_of v = T then Some v else None)"
  by (auto simp: Get_def contents_def lookup_def is_value_node_def dynamic_pointer_cast_def split: option.splits)

lemma remove_walk_None: "remove_walk h a key ns = None \<longleftrightarrow> get_walk h a key = None"
  by (induction key arbitrary: a ns) (auto split: option.splits)

lemma remove_walk_Some:
  "remove_walk h a key ns = Some (ns', cur) \<Longrightarrow> get_walk h a key = Some cur \<and> length ns' = length ns + length key"
  by (induction key arbitrary: a ns) (auto split: option.splits)

lemma Remove_noop:
  assumes "root t = None \<or>
           (\<exists>r. root t = Some r \<and>
                (get_walk h r key = None \<or>
                 (\<exists>cur. get_walk h r key = Some cur \<and> \<not> is_value_node (h ! cur))))"
  shows "Remove h t key = Some (h, t)"
proof -
  have t: "t = \<lparr>root = root t\<rparr>" by simp
  show ?thesis
  proof (cases "root t")
    case None
    then show ?thesis using t by (simp add: Remove_def)
  next
    case (Some r)
    show ?thesis
    proof (cases "remove_walk h r key []")
      case None
      then show ?thesis using Some t by (simp add: Remove_def)
    next
      case Some2: (Some p)
      obtain ns cur where p: "p = (ns, cur)" by (cases p)
      then have "get_walk h r key = Some cur"
        using Some2 remove_walk_Some by blast
      then have "\<not> is_value_node (h ! cur)"
        using assms Some by auto
      then show ?thesis using Some Some2 p t by (simp add: Remove_def)
    qed
  qed
qed

lemma prefix_iff_nth:
  "prefix xs ys \<longleftrightarrow> length xs \<le> length ys \<and> (\<forall>i<length xs. ys ! i = xs ! i)"
proof
  assume "prefix xs ys"
  then show "length xs \<le> length ys \<and> (\<forall>i<length xs. ys ! i = xs ! i)"
    by (auto simp: prefix_def nth_append)
next
  assume a: "length xs \<le> length ys \<and> (\<forall>i<length xs. ys ! i = xs ! i)"
  then have "take (length xs) ys = xs"
    by (intro nth_equalityI) auto
  then have "ys = xs @ drop (length xs) ys"
    by (metis append_take_drop_id)
  then show "prefix xs ys"
    using prefixI by blast
qed

lemma differs_at_refl: "differs_at h p h"
  by (simp add: differs_at_def)

lemma differs_at_prefix:
  "prefix h0 h \<Longrightarrow> differs_at h p h' \<Longrightarrow> length h0 \<le> p \<Longrightarrow> prefix h0 h'"
  by (auto simp: prefix_iff_nth differs_at_def)

lemma prefix_differs_at: "prefix h h' \<Longrightarrow> differs_at h p h'"
  by (auto simp: prefix_iff_nth differs_at_def)

lemma differs_at_nth: "differs_at h p h' \<Longrightarrow> a < length h \<Longrightarrow> a \<noteq> p \<Longrightarrow> h' ! a = h ! a"
  by (simp add: differs_at_def)

lemma differs_at_length: "differs_at h p h' \<Longrightarrow> length h \<le> length h'"
  by (simp add: differs_at_def)

lemma differs_at_trans:
  "differs_at h p h1 \<Longrightarrow> differs_at h1 q h2 \<Longrightarrow> q = p \<or> length h \<le> q \<Longrightarrow> differs_at h p h2"
  by (auto simp: differs_at_def)

lemma length_set_children [simp]: "length (set_children h p m) = length h"
  by (simp add: set_children_def)

lemma length_assign_child [simp]: "length (assign_child h p c q) = length h"
  by (simp add: assign_child_def)

lemma length_erase_child [simp]: "length (erase_child h p c) = length h"
  by (simp add: erase_child_def)

lemma nth_set_children:
  "set_children h p m ! a = (if a = p \<and> p < length h then (h ! p)\<lparr>children := m\<rparr> else h ! a)"
  by (cases "p < length h") (auto simp: set_children_def list_update_beyond)

lemma nth_assign_child:
  "assign_child h p c q ! a =
     (if a = p \<and> p < length h then (h ! p)\<lparr>children := AList.update c q (children (h ! p))\<rparr>
      else h ! a)"
  by (simp add: assign_child_def nth_set_children map_assign_def)

lemma nth_erase_child:
  "erase_child h p c ! a =
     (if a = p \<and> p < length h then (h ! p)\<lparr>children := AList.delete c (children (h ! p))\<rparr>
      else h ! a)"
  by (simp add: erase_child_def nth_set_children map_erase_def)

lemma map_find_update:
  "map_find (AList.update c q m) c' = (if c' = c then Some q else map_find m c')"
  by (simp add: map_find_def update_conv')

lemma map_find_delete:
  "map_find (AList.delete c m) c' = (if c' = c then None else map_find m c')"
  by (simp add: map_find_def delete_conv')

lemma map_find_Nil [simp]: "map_find [] c = None"
  by (simp add: map_find_def)

lemma set_update_subset: "x \<in> set (AList.update c q m) \<Longrightarrow> x = (c, q) \<or> x \<in> set m"
  by (induction m) (auto split: if_splits)

lemma set_delete_subset: "x \<in> set (AList.delete c m) \<Longrightarrow> x \<in> set m"
  by (simp add: AList.delete_eq)

lemma closed_heap_append:
  assumes "closed_heap h" and "\<And>c b. (c, b) \<in> set (children n) \<Longrightarrow> b \<le> length h"
  shows "closed_heap (h @ [n])"
proof (rule closed_heapI)
  fix a c b
  assume a: "a < length (h @ [n])" and cb: "(c, b) \<in> set (children ((h @ [n]) ! a))"
  show "b < length (h @ [n])"
  proof (cases "a < length h")
    case True
    then have "b < length h" using assms(1) cb closed_heapD by (fastforce simp: nth_append)
    then show ?thesis by simp
  next
    case False
    then have "a = length h" using a by simp
    then show ?thesis using cb assms(2) by fastforce
  qed
qed

lemma closed_heap_assign_child:
  assumes "closed_heap h" and "q < length h"
  shows "closed_heap (assign_child h p c q)"
proof (rule closed_heapI)
  fix a c' b
  assume a: "a < length (assign_child h p c q)"
    and cb: "(c', b) \<in> set (children (assign_child h p c q ! a))"
  then have "(c', b) = (c, q) \<or> (c', b) \<in> set (children (h ! a))"
    by (auto simp: nth_assign_child split: if_splits dest: set_update_subset)
  then show "b < length (assign_child h p c q)"
    using assms a closed_heapD by auto
qed

lemma closed_heap_erase_child:
  assumes "closed_heap h"
  shows "closed_heap (erase_child h p c)"
proof (rule closed_heapI)
  fix a c' b
  assume a: "a < length (erase_child h p c)"
    and cb: "(c', b) \<in> set (children (erase_child h p c ! a))"
  then have "(c', b) \<in> set (children (h ! a))"
    by (auto simp: nth_erase_child split: if_splits dest: set_delete_subset)
  then show "b < length (erase_child h p c)"
    using assms a closed_heapD by auto
qed

lemma closed_heap_set_children_Nil:
  assumes "closed_heap h"
  shows "closed_heap (set_children h p [])"
proof (rule closed_heapI)
  fix a c' b
  assume a: "a < length (set_children h p [])"
    and cb: "(c', b) \<in> set (children (set_children h p [] ! a))"
  then have "(c', b) \<in> set (children (h ! a))"
    by (auto simp: nth_set_children split: if_splits)
  then show "b < length (set_children h p [])"
    using assms a closed_heapD by auto
qed

lemma closed_heap_children_old:
  "closed_heap h \<Longrightarrow> a < length h \<Longrightarrow> (c, b) \<in> set (children (h ! a)) \<Longrightarrow> b \<le> length h"
  using closed_heapD by fastforce

lemma lookup_Nil [simp]: "lookup h a [] = node_value (h ! a)"
  by (simp add: lookup_def)

lemma lookup_Cons:
  "lookup h a (c # k) = (case map_find (children (h ! a)) c of None \<Rightarrow> None | Some b \<Rightarrow> lookup h b k)"
  by (simp add: lookup_def split: option.splits)

lemma lookup_append:
  "get_walk h a k1 = Some b \<Longrightarrow> lookup h a (k1 @ k2) = lookup h b k2"
  by (simp add: lookup_def get_walk_append)

text \<open>A node with the children of an old node looks up like the old node.\<close>

lemma lookup_same_children:
  assumes "closed_heap h0" and "prefix h0 h" and "y < length h0"
    and "children (h ! x) = children (h0 ! y)"
  shows "lookup h x (c # k) = lookup h0 y (c # k)"
proof (cases "map_find (children (h0 ! y)) c")
  case None
  then show ?thesis using assms(4) by (simp add: lookup_Cons)
next
  case (Some b)
  then have "b < length h0" using assms closed_heap_child by blast
  then have "lookup h b k = lookup h0 b k"
    using assms lookup_ext by blast
  then show ?thesis using Some assms(4) by (simp add: lookup_Cons)
qed

lemma put_empty_loop_frame:
  "cur < length h \<Longrightarrow>
   differs_at h cur (put_empty_loop h cur key v) \<and>
   (key \<noteq> [] \<longrightarrow> node_value (put_empty_loop h cur key v ! cur) = node_value (h ! cur))"
proof (induction key arbitrary: h cur)
  case Nil
  then show ?case by (simp add: differs_at_refl)
next
  case (Cons ch key)
  define n where "n = (if key \<noteq> [] then TrieNode_default else TrieNodeWithValue_leaf v)"
  define h3 where "h3 = assign_child (set_children (h @ [n]) cur []) cur ch (length h)"
  have step: "put_empty_loop h cur (ch # key) v = put_empty_loop h3 (length h) key v"
    by (simp add: h3_def n_def make_shared_def)
  have len: "length h3 = Suc (length h)" by (simp add: h3_def)
  have d0: "differs_at h cur h3"
    by (auto simp: differs_at_def h3_def nth_assign_child nth_set_children nth_append)
  have nv: "node_value (h3 ! cur) = node_value (h ! cur)"
    using Cons.prems by (simp add: h3_def nth_assign_child nth_set_children nth_append)
  have ih: "differs_at h3 (length h) (put_empty_loop h3 (length h) key v)"
    using Cons.IH [of "length h" h3] len by simp
  have "differs_at h cur (put_empty_loop h3 (length h) key v)"
    using d0 ih by (rule differs_at_trans) simp
  moreover have "put_empty_loop h3 (length h) key v ! cur = h3 ! cur"
    using ih Cons.prems len by (intro differs_at_nth [OF ih]) auto
  ultimately show ?case using step nv by simp
qed

lemma put_empty_loop_closed:
  "closed_heap h \<Longrightarrow> cur < length h \<Longrightarrow> closed_heap (put_empty_loop h cur key v)"
proof (induction key arbitrary: h cur)
  case Nil
  then show ?case by simp
next
  case (Cons ch key)
  define n where "n = (if key \<noteq> [] then TrieNode_default else TrieNodeWithValue_leaf v)"
  define h3 where "h3 = assign_child (set_children (h @ [n]) cur []) cur ch (length h)"
  have step: "put_empty_loop h cur (ch # key) v = put_empty_loop h3 (length h) key v"
    by (simp add: h3_def n_def make_shared_def)
  have "children n = []"
    by (simp add: n_def TrieNode_default_def TrieNodeWithValue_leaf_def)
  then have "closed_heap (h @ [n])"
    using Cons.prems(1) by (intro closed_heap_append) auto
  then have "closed_heap h3"
    unfolding h3_def by (intro closed_heap_assign_child closed_heap_set_children_Nil) auto
  then show ?case
    using Cons.IH [of h3 "length h"] step by (simp add: h3_def)
qed

lemma put_empty_loop_lookup:
  "cur < length h \<Longrightarrow> children (h ! cur) = [] \<Longrightarrow>
   h ! cur = (if key \<noteq> [] then TrieNode_default else TrieNodeWithValue_leaf v) \<Longrightarrow>
   lookup (put_empty_loop h cur key v) cur k = (if k = key then Some v else None)"
proof (induction key arbitrary: h cur k)
  case Nil
  then show ?case
    by (cases k) (simp_all add: TrieNodeWithValue_leaf_def lookup_Cons)
next
  case (Cons ch key)
  define n where "n = (if key \<noteq> [] then TrieNode_default else TrieNodeWithValue_leaf v)"
  define h3 where "h3 = assign_child (set_children (h @ [n]) cur []) cur ch (length h)"
  define h' where "h' = put_empty_loop h3 (length h) key v"
  have step: "put_empty_loop h cur (ch # key) v = h'"
    by (simp add: h3_def n_def make_shared_def h'_def)
  have len: "length h3 = Suc (length h)" by (simp add: h3_def)
  have new: "h3 ! length h = n"
    using Cons.prems(1) by (simp add: h3_def nth_assign_child nth_set_children)
  have cn: "children n = []"
    by (simp add: n_def TrieNode_default_def TrieNodeWithValue_leaf_def)
  have ih: "lookup h' (length h) k' = (if k' = key then Some v else None)" for k'
    unfolding h'_def using Cons.IH [of "length h" h3 k'] len new cn by (simp add: n_def)
  have fr: "differs_at h3 (length h) h'"
    unfolding h'_def using put_empty_loop_frame [of "length h" h3 key v] len by simp
  have "h' ! cur = h3 ! cur"
    using Cons.prems(1) len by (intro differs_at_nth [OF fr]) auto
  then have cur: "children (h' ! cur) = [(ch, length h)]" "node_value (h' ! cur) = None"
    using Cons.prems by (simp_all add: h3_def nth_assign_child nth_set_children nth_append TrieNode_default_def)
  have "lookup h' cur k = (if k = ch # key then Some v else None)"
  proof (cases k)
    case Nil
    then show ?thesis using cur by simp
  next
    case (Cons c k2)
    then show ?thesis using cur
      by (simp add: lookup_Cons map_find_def ih)
  qed
  then show ?case unfolding step .
qed

lemma Put_empty_key:
  "Put h t [] v =
     Some (h @ [TrieNodeWithValue (case root t of None \<Rightarrow> [] | Some r \<Rightarrow> children (h ! r)) v],
           \<lparr>root = Some (length h)\<rparr>)"
  by (simp add: Put_def make_shared_def TrieNodeWithValue_def TrieNodeWithValue_leaf_def
      split: option.splits)

lemma Put_empty_trie:
  "key \<noteq> [] \<Longrightarrow> root t = None \<Longrightarrow>
   Put h t key v = Some (put_empty_loop (h @ [TrieNode_default]) (length h) key v, \<lparr>root = Some (length h)\<rparr>)"
  by (simp add: Put_def make_shared_def)

lemma on_path_length: "on_path h a k ns \<Longrightarrow> length ns = length k"
  by (induction h a k ns rule: on_path.induct) auto

lemma on_path_get_walk: "on_path h a k ns \<Longrightarrow> get_walk h a k = Some (last (a # ns))"
  by (induction h a k ns rule: on_path.induct) auto

lemma on_path_range:
  "closed_heap h \<Longrightarrow> a < length h \<Longrightarrow> on_path h a k ns \<Longrightarrow> \<forall>n\<in>set ns. n < length h"
  by (induction h a k ns rule: on_path.induct) (auto dest: closed_heap_child)

lemma on_path_last_range:
  "closed_heap h \<Longrightarrow> a < length h \<Longrightarrow> on_path h a k ns \<Longrightarrow> last (a # ns) < length h"
  using on_path_get_walk get_walk_range by blast

lemma on_path_snoc:
  "on_path h a k ns \<Longrightarrow> map_find (children (h ! last (a # ns))) c = Some n \<Longrightarrow>
   on_path h a (k @ [c]) (ns @ [n])"
  by (induction h a k ns rule: on_path.induct) auto

lemma put_walk_spec:
  "put_walk h a key acc = (nodes, rest) \<Longrightarrow>
   \<exists>pre ns. key = pre @ rest \<and> nodes = acc @ ns \<and> on_path h a pre ns \<and>
     (case rest of [] \<Rightarrow> True | c # _ \<Rightarrow> map_find (children (h ! last (a # ns))) c = None)"
proof (induction key arbitrary: a acc)
  case Nil
  then have "[] = [] @ rest \<and> nodes = acc @ [] \<and> on_path h a [] []" by simp
  then show ?case using Nil by (intro exI [of _ "[]"]) auto
next
  case (Cons ch key)
  show ?case
  proof (cases "map_find (children (h ! a)) ch")
    case None
    then have "nodes = acc" "rest = ch # key" using Cons.prems by simp_all
    then have "ch # key = [] @ rest \<and> nodes = acc @ [] \<and> on_path h a [] [] \<and>
       (case rest of [] \<Rightarrow> True | c # _ \<Rightarrow> map_find (children (h ! last (a # []))) c = None)"
      using None by simp
    then show ?thesis by blast
  next
    case (Some child)
    then have "put_walk h child key (acc @ [child]) = (nodes, rest)"
      using Cons.prems by simp
    then obtain pre ns where p: "key = pre @ rest" "nodes = (acc @ [child]) @ ns"
      "on_path h child pre ns"
      "(case rest of [] \<Rightarrow> True | c # _ \<Rightarrow> map_find (children (h ! last (child # ns))) c = None)"
      using Cons.IH by blast
    have "ch # key = (ch # pre) @ rest \<and> nodes = acc @ (child # ns) \<and>
       on_path h a (ch # pre) (child # ns) \<and>
       (case rest of [] \<Rightarrow> True | c # _ \<Rightarrow> map_find (children (h ! last (a # child # ns))) c = None)"
      using p Some by (auto split: list.splits)
    then show ?thesis by blast
  qed
qed

text \<open>The loop of lines 92-102.\<close>

lemma put_found_loop_sem:
  assumes "closed_heap h0"
  shows "prefix h0 h \<Longrightarrow> length h0 \<le> parent \<Longrightarrow> parent < length h \<Longrightarrow> p0 < length h0 \<Longrightarrow>
    children (h ! parent) = children (h0 ! p0) \<Longrightarrow> on_path h0 p0 key nodes \<Longrightarrow> key \<noteq> [] \<Longrightarrow>
    \<exists>h'. put_found_loop h parent key nodes v = Some h' \<and> differs_at h parent h' \<and>
      node_value (h' ! parent) = node_value (h ! parent) \<and>
      (\<forall>k. k \<noteq> [] \<longrightarrow> lookup h' parent k = (if k = key then Some v else lookup h0 p0 k))"
proof (induction key arbitrary: h parent p0 nodes)
  case Nil
  then show ?case by simp
next
  case (Cons ch key)
  obtain nd ns where nodes: "nodes = nd # ns"
    and nd: "map_find (children (h0 ! p0)) ch = Some nd" and path: "on_path h0 nd key ns"
    using Cons.prems(6) by (cases nodes) auto
  have nd_lt: "nd < length h0"
    using assms(1) Cons.prems(4) nd closed_heap_child by blast
  have hnd: "h ! nd = h0 ! nd"
    using Cons.prems(1) nd_lt prefix_nth by blast
  define n where "n = (if key \<noteq> [] then Clone (h ! nd) else TrieNodeWithValue (children (h ! nd)) v)"
  define new where "new = length h"
  define h2 where "h2 = assign_child (h @ [n]) parent ch new"
  have step: "put_found_loop h parent (ch # key) nodes v = put_found_loop h2 new key ns v"
    by (simp add: nodes h2_def n_def new_def make_shared_def)
  have len2: "length h2 = Suc (length h)" by (simp add: h2_def)
  have d2: "differs_at h parent h2"
    by (auto simp: differs_at_def h2_def nth_assign_child nth_append)
  have p2: "prefix h0 h2"
    using Cons.prems(1) d2 Cons.prems(2) by (rule differs_at_prefix)
  have new2: "h2 ! new = n"
    using Cons.prems(3) by (simp add: h2_def new_def nth_assign_child)
  have par2: "h2 ! parent = (h ! parent)\<lparr>children := AList.update ch new (children (h ! parent))\<rparr>"
    using Cons.prems(3) by (simp add: h2_def nth_assign_child nth_append)
  have cn: "children n = children (h0 ! nd)"
    by (simp add: n_def Clone_def TrieNodeWithValue_def hnd)
  have "\<exists>h'. put_found_loop h2 new key ns v = Some h' \<and> differs_at h2 new h' \<and>
      node_value (h' ! new) = node_value (h2 ! new) \<and>
      (\<forall>k. k \<noteq> [] \<longrightarrow> lookup h' new k = (if k = key then Some v else lookup h0 nd k))"
  proof (cases "key = []")
    case True
    have "lookup h2 new k = lookup h0 nd k" if kne: "k \<noteq> []" for k
    proof -
      obtain c k2 where "k = c # k2" using kne by (cases k) auto
      then show ?thesis
        using lookup_same_children [OF assms(1) p2 nd_lt, of new c k2] new2 cn by simp
    qed
    then show ?thesis using True by (simp add: differs_at_refl)
  next
    case False
    have "length h0 \<le> new"
      using Cons.prems(1) by (simp add: new_def prefix_length_le)
    moreover have "new < length h2" by (simp add: new_def len2)
    moreover have "children (h2 ! new) = children (h0 ! nd)" by (simp add: new2 cn)
    ultimately show ?thesis
      using Cons.IH [OF p2 _ _ nd_lt _ path False] by blast
  qed
  then obtain h' where h': "put_found_loop h2 new key ns v = Some h'" "differs_at h2 new h'"
      "node_value (h' ! new) = node_value (h2 ! new)"
      "\<And>k. k \<noteq> [] \<Longrightarrow> lookup h' new k = (if k = key then Some v else lookup h0 nd k)"
    by blast
  have nvn: "node_value n = (if key = [] then Some v else node_value (h0 ! nd))"
    by (simp add: n_def Clone_def TrieNodeWithValue_def hnd)
  have sub: "lookup h' new k = (if k = key then Some v else lookup h0 nd k)" for k
  proof (cases k)
    case Nil
    then show ?thesis using h'(3) new2 nvn by simp
  next
    case (Cons c k2)
    then show ?thesis using h'(4) by simp
  qed
  have d: "differs_at h parent h'"
    using d2 h'(2) by (rule differs_at_trans) (simp add: new_def)
  have p': "prefix h0 h'"
    using Cons.prems(1) d Cons.prems(2) by (rule differs_at_prefix)
  have par': "h' ! parent = h2 ! parent"
    using Cons.prems(3) len2 by (intro differs_at_nth [OF h'(2)]) (auto simp: new_def)
  have "lookup h' parent k = (if k = ch # key then Some v else lookup h0 p0 k)" if kne: "k \<noteq> []" for k
  proof -
    obtain c k2 where k: "k = c # k2" using kne by (cases k) auto
    show ?thesis
    proof (cases "c = ch")
      case True
      then show ?thesis using k par' par2 nd
        by (simp add: lookup_Cons map_find_update sub)
    next
      case False
      have "lookup h' parent (c # k2) = lookup h0 p0 (c # k2)"
      proof (cases "map_find (children (h0 ! p0)) c")
        case None
        then show ?thesis using False par' par2 Cons.prems(5)
          by (simp add: lookup_Cons map_find_update)
      next
        case (Some b)
        then have "b < length h0" using assms(1) Cons.prems(4) closed_heap_child by blast
        then have "lookup h' b k2 = lookup h0 b k2"
          using assms(1) p' lookup_ext by blast
        then show ?thesis using False par' par2 Cons.prems(5) Some
          by (simp add: lookup_Cons map_find_update)
      qed
      then show ?thesis using k False by simp
    qed
  qed
  moreover have "node_value (h' ! parent) = node_value (h ! parent)"
    using par' par2 by simp
  ultimately show ?case
    unfolding step using h'(1) d by blast
qed

lemma put_prefix_loop_sem:
  assumes "closed_heap h0"
  shows "prefix h0 h \<Longrightarrow> length h0 \<le> parent \<Longrightarrow> parent < length h \<Longrightarrow> p0 < length h0 \<Longrightarrow>
    children (h ! parent) = children (h0 ! p0) \<Longrightarrow> node_value (h ! parent) = node_value (h0 ! p0) \<Longrightarrow>
    on_path h0 p0 kpre nodes \<Longrightarrow>
    \<exists>h' p' idx'. put_prefix_loop h parent (kpre @ krest) nodes index = Some (h', p', idx') \<and>
      (0 \<le> index \<longrightarrow> index + int (length nodes) < 2147483648 \<longrightarrow> idx' = index + int (length nodes)) \<and>
      differs_at h parent h' \<and> parent \<le> p' \<and> p' < length h' \<and>
      children (h' ! p') = children (h0 ! last (p0 # nodes)) \<and>
      node_value (h' ! p') = node_value (h0 ! last (p0 # nodes)) \<and>
      (\<forall>h5. differs_at h' p' h5 \<longrightarrow>
         get_walk h5 parent kpre = Some p' \<and>
         (\<forall>k. \<not> prefix kpre k \<longrightarrow> lookup h5 parent k = lookup h0 p0 k))"
proof (induction nodes arbitrary: h parent p0 kpre index)
  case Nil
  then have "kpre = []" by (cases kpre) auto
  then show ?case using Nil by (simp add: differs_at_refl)
next
  case (Cons nd ns)
  obtain ch kp where kpre: "kpre = ch # kp"
    and nd: "map_find (children (h0 ! p0)) ch = Some nd" and path: "on_path h0 nd kp ns"
    using Cons.prems(7) by (cases kpre) auto
  have nd_lt: "nd < length h0"
    using assms Cons.prems(4) nd closed_heap_child by blast
  have hnd: "h ! nd = h0 ! nd"
    using Cons.prems(1) nd_lt prefix_nth by blast
  define new where "new = length h"
  define h2 where "h2 = assign_child (h @ [Clone (h ! nd)]) parent ch new"
  have step: "put_prefix_loop h parent (kpre @ krest) (nd # ns) index =
      put_prefix_loop h2 new (kp @ krest) ns (to_int32 (index + 1))"
    by (simp add: kpre h2_def new_def make_shared_def)
  have len2: "length h2 = Suc (length h)" by (simp add: h2_def)
  have d2: "differs_at h parent h2"
    by (auto simp: differs_at_def h2_def nth_assign_child nth_append)
  have p2: "prefix h0 h2"
    using Cons.prems(1) d2 Cons.prems(2) by (rule differs_at_prefix)
  have new2: "h2 ! new = Clone (h0 ! nd)"
    using Cons.prems(3) by (simp add: h2_def new_def nth_assign_child hnd)
  have par2: "h2 ! parent = (h ! parent)\<lparr>children := AList.update ch new (children (h ! parent))\<rparr>"
    using Cons.prems(3) by (simp add: h2_def nth_assign_child nth_append)
  have lnew: "length h0 \<le> new"
    using Cons.prems(1) by (simp add: new_def prefix_length_le)
  have "new < length h2" by (simp add: new_def len2)
  moreover have "children (h2 ! new) = children (h0 ! nd)" by (simp add: new2 Clone_def)
  moreover have "node_value (h2 ! new) = node_value (h0 ! nd)" by (simp add: new2 Clone_def)
  ultimately obtain h' p' idx' where
    r: "put_prefix_loop h2 new (kp @ krest) ns (to_int32 (index + 1)) = Some (h', p', idx')"
    and idx: "0 \<le> to_int32 (index + 1) \<longrightarrow> to_int32 (index + 1) + int (length ns) < 2147483648 \<longrightarrow>
         idx' = to_int32 (index + 1) + int (length ns)"
    and d': "differs_at h2 new h'" and le: "new \<le> p'" and lt: "p' < length h'"
    and ch': "children (h' ! p') = children (h0 ! last (nd # ns))"
    and nv': "node_value (h' ! p') = node_value (h0 ! last (nd # ns))"
    and cont: "\<And>h5. differs_at h' p' h5 \<Longrightarrow>
         get_walk h5 new kp = Some p' \<and>
         (\<forall>k. \<not> prefix kp k \<longrightarrow> lookup h5 new k = lookup h0 nd k)"
    using Cons.IH [OF p2 lnew _ nd_lt _ _ path, where index = "to_int32 (index + 1)"] by blast
  have i: "0 \<le> index \<longrightarrow> index + int (length (nd # ns)) < 2147483648 \<longrightarrow>
      idx' = index + int (length (nd # ns))"
  proof (intro impI)
    assume a: "0 \<le> index" "index + int (length (nd # ns)) < 2147483648"
    then have "to_int32 (index + 1) = index + 1"
      by (intro to_int32_id) auto
    then show "idx' = index + int (length (nd # ns))"
      using idx a by simp
  qed
  have d: "differs_at h parent h'"
    using d2 d' by (rule differs_at_trans) (simp add: new_def)
  have ph': "prefix h0 h'"
    using Cons.prems(1) d Cons.prems(2) by (rule differs_at_prefix)
  have par': "h' ! parent = h2 ! parent"
    using Cons.prems(3) len2 by (intro differs_at_nth [OF d']) (auto simp: new_def)
  have c: "get_walk h5 parent kpre = Some p' \<and>
         (\<forall>k. \<not> prefix kpre k \<longrightarrow> lookup h5 parent k = lookup h0 p0 k)"
    if d5: "differs_at h' p' h5" for h5
  proof -
    have p5: "prefix h0 h5"
      using ph' d5 lnew le by (intro differs_at_prefix [OF ph' d5]) simp
    have "parent < length h'" using Cons.prems(3) d differs_at_length by fastforce
    moreover have "parent \<noteq> p'" using Cons.prems(3) le by (simp add: new_def)
    ultimately have "h5 ! parent = h' ! parent"
      using differs_at_nth [OF d5] by blast
    then have par5: "h5 ! parent = (h ! parent)\<lparr>children := AList.update ch new (children (h ! parent))\<rparr>"
      using par' par2 by simp
    have w: "get_walk h5 new kp = Some p'"
      and l: "\<And>k. \<not> prefix kp k \<Longrightarrow> lookup h5 new k = lookup h0 nd k"
      using cont [OF d5] by blast+
    have "lookup h5 parent k = lookup h0 p0 k" if np: "\<not> prefix kpre k" for k
    proof (cases k)
      case Nil
      then show ?thesis using par5 Cons.prems(6) by simp
    next
      case k: (Cons c k2)
      show ?thesis
      proof (cases "c = ch")
        case True
        then have "\<not> prefix kp k2" using np k kpre by simp
        then show ?thesis using True k par5 nd l
          by (simp add: lookup_Cons map_find_update)
      next
        case False
        show ?thesis
        proof (cases "map_find (children (h0 ! p0)) c")
          case None
          then show ?thesis using False k par5 Cons.prems(5)
            by (simp add: lookup_Cons map_find_update)
        next
          case (Some b)
          then have "b < length h0" using assms Cons.prems(4) closed_heap_child by blast
          then have "lookup h5 b k2 = lookup h0 b k2"
            using assms p5 lookup_ext by blast
          then show ?thesis using False k par5 Cons.prems(5) Some
            by (simp add: lookup_Cons map_find_update)
        qed
      qed
    qed
    moreover have "get_walk h5 parent kpre = Some p'"
      using w par5 by (simp add: kpre map_find_update)
    ultimately show ?thesis by blast
  qed
  have "parent \<le> p'" using Cons.prems(3) le by (simp add: new_def)
  then show ?case
    unfolding step using r i d lt ch' nv' c by (simp del: length_Cons)
qed

lemma fresh_bound:
  "key \<noteq> [] \<Longrightarrow> length key < 2147483648 \<Longrightarrow>
   to_int32 (static_cast_int (length key) - 1) = int (length key) - 1"
proof -
  assume a: "key \<noteq> []" "length key < 2147483648"
  then have "static_cast_int (length key) = int (length key)"
    unfolding static_cast_int_def by (intro to_int32_id) auto
  moreover have "0 < length key" using a by simp
  ultimately show ?thesis using a(2) by (simp add: to_int32_id)
qed

lemma lookup_default:
  "h ! a = TrieNode_default \<Longrightarrow> lookup h a k = None"
  by (cases k) (simp_all add: lookup_Cons TrieNode_default_def)

lemma butlast_drop_step:
  "Suc m < length key \<Longrightarrow> butlast (drop m key) = key ! m # butlast (drop (Suc m) key)"
  by (metis Cons_nth_drop_Suc Suc_lessD butlast.simps(2) drop_eq_Nil not_le)

lemma put_fresh_loop_sem:
  assumes "closed_heap h0" and "length key < 2147483648"
  shows "prefix h0 h \<Longrightarrow> length h0 \<le> parent \<Longrightarrow> parent < length h \<Longrightarrow>
    (\<forall>c b. map_find (children (h ! parent)) c = Some b \<longrightarrow> b < length h0) \<Longrightarrow>
    m < length key \<Longrightarrow> length key - 1 - m = d \<Longrightarrow>
    map_find (children (h ! parent)) (key ! m) = None \<Longrightarrow>
    \<exists>h' p'. put_fresh_loop h parent key (int m) = Some (h', p') \<and>
      differs_at h parent h' \<and> parent \<le> p' \<and> p' < length h' \<and>
      (\<forall>c b. map_find (children (h' ! p')) c = Some b \<longrightarrow> b < length h0) \<and>
      map_find (children (h' ! p')) (last key) = None \<and>
      (d = 0 \<longrightarrow> p' = parent \<and> h' = h) \<and>
      (d \<noteq> 0 \<longrightarrow> length h \<le> p' \<and> h' ! p' = TrieNode_default) \<and>
      (\<forall>h5. differs_at h' p' h5 \<longrightarrow>
         get_walk h5 parent (butlast (drop m key)) = Some p' \<and>
         (\<forall>k. \<not> prefix (butlast (drop m key)) k \<longrightarrow> lookup h5 parent k = lookup h parent k))"
proof (induction d arbitrary: h parent m)
  case 0
  have ne: "key \<noteq> []" using 0(5) by auto
  have m: "m = length key - 1" using 0(5,6) by simp
  have b: "to_int32 (static_cast_int (length key) - 1) = int (length key) - 1"
    using ne assms(2) by (rule fresh_bound)
  have "0 < length key" using ne by simp
  then have "int m = int (length key) - 1" using m by linarith
  then have nlt: "\<not> int m < to_int32 (static_cast_int (length key) - 1)"
    using b by simp
  have r: "put_fresh_loop h parent key (int m) = Some (h, parent)"
    by (subst put_fresh_loop.simps) (simp add: nlt)
  have "drop m key = [last key]"
    using m ne by (metis append_butlast_last_id append_eq_conv_conj length_butlast)
  then have mid: "butlast (drop m key) = []" by simp
  have "key ! m = last key" using m ne by (simp add: last_conv_nth)
  then show ?case
    using r mid 0 by (simp add: differs_at_refl)
next
  case (Suc d)
  have ne: "key \<noteq> []" using Suc.prems(5) by auto
  have m: "Suc m < length key" using Suc.prems(5,6) by simp
  have b: "to_int32 (static_cast_int (length key) - 1) = int (length key) - 1"
    using ne assms(2) by (rule fresh_bound)
  define new where "new = length h"
  define h2 where "h2 = assign_child (h @ [TrieNode_default]) parent (key ! m) new"
  have nx: "to_int32 (int m + 1) = int (Suc m)"
    using m assms(2) by (simp add: to_int32_id)
  have lt0: "int m < to_int32 (static_cast_int (length key) - 1)"
    using m b by simp
  have at: "at_index key (int m) = Some (key ! m)"
    using m by (simp add: at_index_def)
  have step: "put_fresh_loop h parent key (int m) = put_fresh_loop h2 new key (int (Suc m))"
    by (subst put_fresh_loop.simps) (simp add: lt0 at nx make_shared_def h2_def new_def)
  have len2: "length h2 = Suc (length h)" by (simp add: h2_def)
  have d2: "differs_at h parent h2"
    by (auto simp: differs_at_def h2_def nth_assign_child nth_append)
  have p2: "prefix h0 h2"
    using Suc.prems(1) d2 Suc.prems(2) by (rule differs_at_prefix)
  have new2: "h2 ! new = TrieNode_default"
    using Suc.prems(3) by (simp add: h2_def new_def nth_assign_child)
  have par2: "h2 ! parent =
      (h ! parent)\<lparr>children := AList.update (key ! m) new (children (h ! parent))\<rparr>"
    using Suc.prems(3) by (simp add: h2_def nth_assign_child nth_append)
  have lnew: "length h0 \<le> new"
    using Suc.prems(1) by (simp add: new_def prefix_length_le)
  have cnew: "children (h2 ! new) = []" by (simp add: new2 TrieNode_default_def)
  have l1: "new < length h2" by (simp add: new_def len2)
  have l2: "\<forall>c b. map_find (children (h2 ! new)) c = Some b \<longrightarrow> b < length h0"
    by (simp add: cnew)
  have l3: "length key - 1 - Suc m = d" using Suc.prems(6) by simp
  have l4: "map_find (children (h2 ! new)) (key ! Suc m) = None"
    by (simp add: cnew)
  obtain h' p' where
    r: "put_fresh_loop h2 new key (int (Suc m)) = Some (h', p')"
    and d': "differs_at h2 new h'" and le: "new \<le> p'" and lt: "p' < length h'"
    and old: "\<forall>c b. map_find (children (h' ! p')) c = Some b \<longrightarrow> b < length h0"
    and lastn: "map_find (children (h' ! p')) (last key) = None"
    and z: "d = 0 \<longrightarrow> p' = new \<and> h' = h2"
    and nz: "d \<noteq> 0 \<longrightarrow> length h2 \<le> p' \<and> h' ! p' = TrieNode_default"
    and cont: "\<And>h5. differs_at h' p' h5 \<Longrightarrow>
         get_walk h5 new (butlast (drop (Suc m) key)) = Some p' \<and>
         (\<forall>k. \<not> prefix (butlast (drop (Suc m) key)) k \<longrightarrow> lookup h5 new k = lookup h2 new k)"
    using Suc.IH [OF p2 lnew l1 l2 m l3 l4] by blast
  have mid: "butlast (drop m key) = key ! m # butlast (drop (Suc m) key)"
    using m by (rule butlast_drop_step)
  have d: "differs_at h parent h'"
    using d2 d' by (rule differs_at_trans) (simp add: new_def)
  have ph: "prefix h0 h'"
    using Suc.prems(1) d Suc.prems(2) by (rule differs_at_prefix)
  have par': "h' ! parent = h2 ! parent"
    using Suc.prems(3) len2 by (intro differs_at_nth [OF d']) (auto simp: new_def)
  have fresh: "length h \<le> p' \<and> h' ! p' = TrieNode_default"
    using z nz le new2 len2 by (cases "d = 0") (auto simp: new_def)
  have c: "get_walk h5 parent (butlast (drop m key)) = Some p' \<and>
         (\<forall>k. \<not> prefix (butlast (drop m key)) k \<longrightarrow> lookup h5 parent k = lookup h parent k)"
    if d5: "differs_at h' p' h5" for h5
  proof -
    have p5: "prefix h0 h5"
      using lnew le by (intro differs_at_prefix [OF ph d5]) simp
    have "parent < length h'" using Suc.prems(3) d differs_at_length by fastforce
    moreover have "parent \<noteq> p'" using Suc.prems(3) le by (simp add: new_def)
    ultimately have "h5 ! parent = h' ! parent"
      using differs_at_nth [OF d5] by blast
    then have par5: "h5 ! parent =
        (h ! parent)\<lparr>children := AList.update (key ! m) new (children (h ! parent))\<rparr>"
      using par' par2 by simp
    have w: "get_walk h5 new (butlast (drop (Suc m) key)) = Some p'"
      and l: "\<And>k. \<not> prefix (butlast (drop (Suc m) key)) k \<Longrightarrow> lookup h5 new k = lookup h2 new k"
      using cont [OF d5] by blast+
    have "lookup h5 parent k = lookup h parent k" if np: "\<not> prefix (butlast (drop m key)) k" for k
    proof (cases k)
      case Nil
      then show ?thesis using par5 by simp
    next
      case k: (Cons c k2)
      show ?thesis
      proof (cases "c = key ! m")
        case True
        then have "\<not> prefix (butlast (drop (Suc m) key)) k2" using np k mid by simp
        then have "lookup h5 new k2 = None"
          using l new2 lookup_default by simp
        then show ?thesis using True k par5 Suc.prems(7)
          by (simp add: lookup_Cons map_find_update)
      next
        case False
        show ?thesis
        proof (cases "map_find (children (h ! parent)) c")
          case None
          then show ?thesis using False k par5
            by (simp add: lookup_Cons map_find_update)
        next
          case (Some b)
          then have "b < length h0" using Suc.prems(4) by blast
          then have "lookup h5 b k2 = lookup h0 b k2" "lookup h b k2 = lookup h0 b k2"
            using assms(1) p5 Suc.prems(1) lookup_ext by blast+
          then show ?thesis using False k par5 Some
            by (simp add: lookup_Cons map_find_update)
        qed
      qed
    qed
    moreover have "get_walk h5 parent (butlast (drop m key)) = Some p'"
      using w par5 by (simp add: mid map_find_update)
    ultimately show ?thesis by blast
  qed
  have "parent \<le> p'" using Suc.prems(3) le by (simp add: new_def)
  then show ?case
    unfolding step using r d lt old lastn fresh c by simp
qed

lemma differs_at_step:
  "differs_at h parent (assign_child (h @ [n]) parent ch (length h))"
  by (auto simp: differs_at_def nth_assign_child nth_append)

lemma closed_heap_step:
  assumes "closed_heap h" and "\<And>c b. (c, b) \<in> set (children n) \<Longrightarrow> b < length h"
  shows "closed_heap (assign_child (h @ [n]) parent ch (length h))"
proof -
  have "closed_heap (h @ [n])"
    using assms by (intro closed_heap_append) (auto simp: less_imp_le)
  then show ?thesis by (intro closed_heap_assign_child) auto
qed

lemma children_Clone_old:
  "closed_heap h \<Longrightarrow> nd < length h \<Longrightarrow> (c, b) \<in> set (children (Clone (h ! nd))) \<Longrightarrow> b < length h"
  by (auto simp: Clone_def dest: closed_heapD)

lemma put_found_loop_frame:
  "put_found_loop h parent key nodes v = Some h' \<Longrightarrow> differs_at h parent h'"
proof (induction h parent key nodes v rule: put_found_loop.induct)
  case (1 h parent nodes v)
  then show ?case by (simp add: differs_at_refl)
next
  case (2 h parent ch key v)
  then show ?case by simp
next
  case (3 h parent ch key nd nodes v)
  define n where "n = (if key \<noteq> [] then Clone (h ! nd) else TrieNodeWithValue (children (h ! nd)) v)"
  define h2 where "h2 = assign_child (h @ [n]) parent ch (length h)"
  have step: "put_found_loop h parent (ch # key) (nd # nodes) v = put_found_loop h2 (length h) key nodes v"
    by (simp add: h2_def n_def make_shared_def)
  have "differs_at h2 (length h) h'"
    using 3 step by (cases "key = []") (simp_all add: make_shared_def h2_def n_def)
  then show ?case
    using differs_at_step [of h parent n ch] by (auto simp: h2_def intro: differs_at_trans)
qed

lemma put_found_loop_closed:
  "put_found_loop h parent key nodes v = Some h' \<Longrightarrow> closed_heap h \<Longrightarrow>
   \<forall>n\<in>set nodes. n < length h \<Longrightarrow> closed_heap h'"
proof (induction h parent key nodes v rule: put_found_loop.induct)
  case (1 h parent nodes v)
  then show ?case by simp
next
  case (2 h parent ch key v)
  then show ?case by simp
next
  case (3 h parent ch key nd nodes v)
  define n where "n = (if key \<noteq> [] then Clone (h ! nd) else TrieNodeWithValue (children (h ! nd)) v)"
  define h2 where "h2 = assign_child (h @ [n]) parent ch (length h)"
  have step: "put_found_loop h parent (ch # key) (nd # nodes) v = put_found_loop h2 (length h) key nodes v"
    by (simp add: h2_def n_def make_shared_def)
  have "\<And>c b. (c, b) \<in> set (children n) \<Longrightarrow> b < length h"
    using "3.prems"(2,3) by (auto simp: n_def Clone_def TrieNodeWithValue_def dest: closed_heapD split: if_splits)
  then have c2: "closed_heap h2"
    unfolding h2_def using "3.prems"(2) by (intro closed_heap_step) auto
  have r: "\<forall>n\<in>set nodes. n < length h2" using "3.prems"(3) by (auto simp: h2_def)
  show ?case
    using "3.IH" "3.prems"(1) step c2 r by (cases "key = []") (simp_all add: make_shared_def h2_def n_def)
qed

lemma put_prefix_loop_frame:
  "put_prefix_loop h parent key nodes index = Some (h', p', idx') \<Longrightarrow>
   differs_at h parent h' \<and> (p' = parent \<or> length h \<le> p')"
proof (induction h parent key nodes index rule: put_prefix_loop.induct)
  case (1 h parent key index)
  then show ?case by (simp add: differs_at_refl)
next
  case (2 h parent nd nodes index)
  then show ?case by simp
next
  case (3 h parent ch key nd nodes index)
  define h2 where "h2 = assign_child (h @ [Clone (h ! nd)]) parent ch (length h)"
  have "put_prefix_loop h2 (length h) key nodes (to_int32 (index + 1)) = Some (h', p', idx')"
    using "3.prems" by (simp add: h2_def make_shared_def)
  then have "differs_at h2 (length h) h' \<and> (p' = length h \<or> length h2 \<le> p')"
    using "3.IH" by (simp add: h2_def make_shared_def)
  then show ?case
    using differs_at_step [of h parent "Clone (h ! nd)" ch]
    by (auto simp: h2_def intro: differs_at_trans)
qed

lemma put_prefix_loop_closed:
  "put_prefix_loop h parent key nodes index = Some (h', p', idx') \<Longrightarrow> closed_heap h \<Longrightarrow>
   parent < length h \<Longrightarrow> \<forall>n\<in>set nodes. n < length h \<Longrightarrow> closed_heap h' \<and> p' < length h'"
proof (induction h parent key nodes index rule: put_prefix_loop.induct)
  case (1 h parent key index)
  then show ?case by simp
next
  case (2 h parent nd nodes index)
  then show ?case by simp
next
  case (3 h parent ch key nd nodes index)
  define h2 where "h2 = assign_child (h @ [Clone (h ! nd)]) parent ch (length h)"
  have r: "put_prefix_loop h2 (length h) key nodes (to_int32 (index + 1)) = Some (h', p', idx')"
    using "3.prems"(1) by (simp add: h2_def make_shared_def)
  have "\<And>c b. (c, b) \<in> set (children (Clone (h ! nd))) \<Longrightarrow> b < length h"
    using "3.prems"(2,4) children_Clone_old by auto
  then have c2: "closed_heap h2"
    unfolding h2_def using "3.prems"(2) by (intro closed_heap_step) auto
  have "\<forall>n\<in>set nodes. n < length h2" using "3.prems"(4) by (auto simp: h2_def)
  then show ?case
    using "3.IH" r c2 by (simp add: h2_def make_shared_def)
qed

lemma put_fresh_loop_frame:
  "put_fresh_loop h parent key index = Some (h', p') \<Longrightarrow>
   differs_at h parent h' \<and> (p' = parent \<or> length h \<le> p')"
proof (induction h parent key index rule: put_fresh_loop.induct)
  case (1 h parent key index)
  show ?case
  proof (cases "index < to_int32 (static_cast_int (length key) - 1)")
    case False
    then show ?thesis using "1.prems"
      by (subst (asm) put_fresh_loop.simps) (simp add: differs_at_refl)
  next
    case True
    then obtain ch where at: "at_index key index = Some ch"
      using "1.prems"(1) by (subst (asm) put_fresh_loop.simps) (auto split: option.splits)
    define h2 where "h2 = assign_child (h @ [TrieNode_default]) parent ch (length h)"
    have r: "put_fresh_loop h2 (length h) key (to_int32 (index + 1)) = Some (h', p')"
      using "1.prems"(1) True at
      by (subst (asm) put_fresh_loop.simps) (simp add: h2_def make_shared_def)
    have "differs_at h2 (length h) h' \<and> (p' = length h \<or> length h2 \<le> p')"
      using "1.IH" [OF True at, of "(h @ [TrieNode_default], length h)" "h @ [TrieNode_default]" "length h" h2] r
      by (simp add: h2_def make_shared_def)
    then show ?thesis
      using differs_at_step [of h parent TrieNode_default ch]
      by (auto simp: h2_def intro: differs_at_trans)
  qed
qed

lemma put_fresh_loop_closed:
  "put_fresh_loop h parent key index = Some (h', p') \<Longrightarrow> closed_heap h \<Longrightarrow>
   parent < length h \<Longrightarrow> closed_heap h' \<and> p' < length h'"
proof (induction h parent key index rule: put_fresh_loop.induct)
  case (1 h parent key index)
  show ?case
  proof (cases "index < to_int32 (static_cast_int (length key) - 1)")
    case False
    then show ?thesis using "1.prems"
      by (subst (asm) put_fresh_loop.simps) simp
  next
    case True
    then obtain ch where at: "at_index key index = Some ch"
      using "1.prems"(1) by (subst (asm) put_fresh_loop.simps) (auto split: option.splits)
    define h2 where "h2 = assign_child (h @ [TrieNode_default]) parent ch (length h)"
    have r: "put_fresh_loop h2 (length h) key (to_int32 (index + 1)) = Some (h', p')"
      using "1.prems"(1) True at
      by (subst (asm) put_fresh_loop.simps) (simp add: h2_def make_shared_def)
    have c2: "closed_heap h2"
      unfolding h2_def using "1.prems"(2) by (intro closed_heap_step) (auto simp: TrieNode_default_def)
    show ?thesis
      using "1.IH" [OF True at, of "(h @ [TrieNode_default], length h)" "h @ [TrieNode_default]" "length h" h2] r c2
      by (simp add: h2_def make_shared_def)
  qed
qed

lemma lookup_clone:
  assumes "closed_heap h0" and "prefix h0 h" and "y < length h0"
    and "children (h ! x) = children (h0 ! y)" and "node_value (h ! x) = node_value (h0 ! y)"
  shows "lookup h x k = lookup h0 y k"
proof (cases k)
  case Nil
  then show ?thesis using assms(5) by simp
next
  case (Cons c k2)
  then show ?thesis using lookup_same_children [OF assms(1-4)] by simp
qed

text \<open>The tail of \<open>Put\<close> when the walk stopped early (lines 106-122).\<close>

lemma put_partial_sem:
  assumes cl: "closed_heap h" and r: "r < length h"
    and bound: "length key < 2147483648"
    and key: "key = pre @ c # rest"
    and path: "on_path h r pre ns"
    and stop: "map_find (children (h ! last (r # ns))) c = None"
  shows "\<exists>h2 parent index h3 parent'.
    put_prefix_loop (h @ [Clone (h ! r)]) (length h) key ns 0 = Some (h2, parent, index) \<and>
    put_fresh_loop h2 parent key index = Some (h3, parent') \<and>
    (\<forall>k. lookup (assign_child (h3 @ [TrieNodeWithValue_leaf v]) parent' (last key) (length h3))
            (length h) k = (if k = key then Some v else lookup h r k))"
proof -
  define h1 where "h1 = h @ [Clone (h ! r)]"
  define x where "x = last (r # ns)"
  define m where "m = length pre"
  define mid where "mid = butlast (drop m key)"
  define d where "d = length key - 1 - m"
  have lns: "length ns = length pre" using path by (rule on_path_length)
  have x_lt: "x < length h" unfolding x_def using cl r path by (rule on_path_last_range)
  have wx: "get_walk h r pre = Some x" unfolding x_def using path by (rule on_path_get_walk)
  have p1: "prefix h h1" by (simp add: h1_def)
  have m_lt: "m < length key" by (simp add: m_def key)
  have keym: "key ! m = c" by (simp add: m_def key)
  have drop_m: "drop m key = c # rest" by (simp add: m_def key)
  have key_mid: "key = pre @ mid @ [last key]"
    by (simp add: key mid_def drop_m m_def)
  obtain h2 p2 idx where
    l1: "put_prefix_loop h1 (length h) (pre @ c # rest) ns 0 = Some (h2, p2, idx)"
    and idx: "0 \<le> (0::int) \<longrightarrow> 0 + int (length ns) < 2147483648 \<longrightarrow> idx = 0 + int (length ns)"
    and d2: "differs_at h1 (length h) h2" and le2: "length h \<le> p2" and lt2: "p2 < length h2"
    and ch2: "children (h2 ! p2) = children (h ! last (r # ns))"
    and nv2: "node_value (h2 ! p2) = node_value (h ! last (r # ns))"
    and cont2: "\<And>h5. differs_at h2 p2 h5 \<Longrightarrow>
         get_walk h5 (length h) pre = Some p2 \<and>
         (\<forall>k. \<not> prefix pre k \<longrightarrow> lookup h5 (length h) k = lookup h r k)"
    using put_prefix_loop_sem [OF cl p1 _ _ r _ _ path, of "length h" "c # rest" 0]
    by (auto simp: h1_def Clone_def)
  have idx': "idx = int m"
    using idx bound lns by (simp add: m_def key)
  have ph2: "prefix h h2"
    using p1 d2 by (rule differs_at_prefix) simp
  have old2: "\<forall>c b. map_find (children (h2 ! p2)) c = Some b \<longrightarrow> b < length h"
    using ch2 cl x_lt closed_heap_child by (auto simp: x_def)
  have stop2: "map_find (children (h2 ! p2)) (key ! m) = None"
    using ch2 stop keym by simp
  obtain h3 p3 where
    l2: "put_fresh_loop h2 p2 key (int m) = Some (h3, p3)"
    and d3: "differs_at h2 p2 h3" and le3: "p2 \<le> p3" and lt3: "p3 < length h3"
    and old3: "\<forall>c b. map_find (children (h3 ! p3)) c = Some b \<longrightarrow> b < length h"
    and stop3: "map_find (children (h3 ! p3)) (last key) = None"
    and z: "d = 0 \<longrightarrow> p3 = p2 \<and> h3 = h2"
    and nz: "d \<noteq> 0 \<longrightarrow> length h2 \<le> p3 \<and> h3 ! p3 = TrieNode_default"
    and cont3: "\<And>h5. differs_at h3 p3 h5 \<Longrightarrow>
         get_walk h5 p2 mid = Some p3 \<and>
         (\<forall>k. \<not> prefix mid k \<longrightarrow> lookup h5 p2 k = lookup h2 p2 k)"
    using put_fresh_loop_sem [OF cl bound ph2 le2 lt2 old2 m_lt d_def [symmetric] stop2]
    unfolding mid_def by blast
  define h5 where "h5 = assign_child (h3 @ [TrieNodeWithValue_leaf v]) p3 (last key) (length h3)"
  have d5: "differs_at h3 p3 h5"
    unfolding h5_def by (rule differs_at_step)
  have p3_fresh: "p3 = p2 \<or> length h2 \<le> p3"
    using z nz by blast
  have d25: "differs_at h2 p2 h5"
    using d3 d5 p3_fresh by (rule differs_at_trans)
  have ph3: "prefix h h3"
    using ph2 d3 le2 by (rule differs_at_prefix)
  have ph5: "prefix h h5"
    using ph2 d25 le2 by (rule differs_at_prefix)
  have w5: "get_walk h5 (length h) pre = Some p2" "get_walk h5 p2 mid = Some p3"
    and w3: "get_walk h3 (length h) pre = Some p2" "get_walk h3 p2 mid = Some p3"
    using cont2 [OF d25] cont2 [OF d3] cont3 [OF d5] cont3 [OF differs_at_refl] by blast+
  have clone2: "lookup h2 p2 s = lookup h x s" for s
    using cl ph2 x_lt ch2 nv2 unfolding x_def by (rule lookup_clone)
  have hx: "lookup h r (pre @ s) = lookup h x s" for s
    using wx by (rule lookup_append)
  have stopx: "lookup h x (c # s) = None" for s
    using stop by (simp add: lookup_Cons x_def)
  text \<open>Before the last assignment the new trie holds what the old one holds.\<close>
  have L3: "lookup h3 (length h) k = lookup h r k" for k
  proof (cases "prefix pre k")
    case False
    then show ?thesis using cont2 [OF d3] by blast
  next
    case True
    then obtain s where k: "k = pre @ s" by (auto simp: prefix_def)
    have "lookup h3 p2 s = lookup h x s"
    proof (cases "d = 0")
      case True
      then show ?thesis using z clone2 by simp
    next
      case nzero: False
      then have mid_c: "mid = c # butlast rest"
        using drop_m by (cases rest) (auto simp: mid_def key m_def d_def)
      show ?thesis
      proof (cases "prefix mid s")
        case False
        then show ?thesis using cont3 [OF differs_at_refl] clone2 by simp
      next
        case True
        then obtain u where s: "s = mid @ u" by (auto simp: prefix_def)
        have "lookup h3 p2 (mid @ u) = lookup h3 p3 u"
          using w3(2) by (rule lookup_append)
        also have "\<dots> = None" using nz nzero lookup_default by blast
        finally show ?thesis using s mid_c stopx by simp
      qed
    qed
    then show ?thesis using k w3(1) hx by (simp add: lookup_append)
  qed
  have leaf5: "h5 ! length h3 = TrieNodeWithValue_leaf v"
    using lt3 by (simp add: h5_def nth_assign_child)
  have par5: "h5 ! p3 = (h3 ! p3)\<lparr>children := AList.update (last key) (length h3) (children (h3 ! p3))\<rparr>"
    using lt3 by (simp add: h5_def nth_assign_child nth_append)
  have leaf_lookup: "lookup h5 (length h3) u = (if u = [] then Some v else None)" for u
    using leaf5 by (cases u) (simp_all add: lookup_Cons TrieNodeWithValue_leaf_def)
  have at3: "lookup h5 p3 u = (if u = [last key] then Some v else lookup h3 p3 u)" for u
  proof (cases u)
    case Nil
    then show ?thesis using par5 by simp
  next
    case (Cons e u2)
    show ?thesis
    proof (cases "e = last key")
      case True
      then show ?thesis using Cons par5 stop3 leaf_lookup
        by (simp add: lookup_Cons map_find_update)
    next
      case False
      show ?thesis
      proof (cases "map_find (children (h3 ! p3)) e")
        case None
        then show ?thesis using Cons False par5 by (simp add: lookup_Cons map_find_update)
      next
        case (Some b)
        then have "b < length h" using old3 by blast
        then have "lookup h5 b u2 = lookup h b u2" "lookup h3 b u2 = lookup h b u2"
          using cl ph5 ph3 lookup_ext by blast+
        then show ?thesis using Cons False par5 Some by (simp add: lookup_Cons map_find_update)
      qed
    qed
  qed
  have L5: "lookup h5 (length h) k = (if k = key then Some v else lookup h r k)" for k
  proof (cases "prefix pre k")
    case False
    moreover have "k \<noteq> key" using False key by auto
    ultimately show ?thesis using cont2 [OF d25] by simp
  next
    case True
    then obtain s where k: "k = pre @ s" by (auto simp: prefix_def)
    show ?thesis
    proof (cases "prefix mid s")
      case False
      then have "lookup h5 p2 s = lookup h3 p2 s"
        using cont3 [OF d5] cont3 [OF differs_at_refl] by simp
      moreover have "k \<noteq> key" using False k key_mid by (metis same_append_eq prefixI)
      ultimately show ?thesis using k w5(1) w3(1) L3 [of k] by (simp add: lookup_append)
    next
      case True
      then obtain u where s: "s = mid @ u" by (auto simp: prefix_def)
      have "lookup h5 (length h) k = lookup h5 p3 u"
        using k s w5 by (simp add: lookup_append)
      moreover have "lookup h3 (length h) k = lookup h3 p3 u"
        using k s w3 by (simp add: lookup_append)
      moreover have "k = key \<longleftrightarrow> u = [last key]"
        using k s key_mid by (metis same_append_eq)
      ultimately show ?thesis using at3 [of u] L3 [of k] by simp
    qed
  qed
  show ?thesis
    using l1 l2 L5 unfolding h1_def h5_def key [symmetric] idx' by blast
qed

lemma wf_trie_root: "wf_trie h t \<Longrightarrow> root t = Some r \<Longrightarrow> r < length h"
  by (simp add: wf_trie_def)

lemma wf_trie_closed: "wf_trie h t \<Longrightarrow> closed_heap h"
  by (simp add: wf_trie_def)

lemma Put_some_root:
  assumes "key \<noteq> []" and "root t = Some r" and "put_walk h r key [] = (nodes, rest)"
  shows "Put h t key v =
    (if rest = [] then
       (case put_found_loop (h @ [Clone (h ! r)]) (length h) key nodes v of
          None \<Rightarrow> None
        | Some h2 \<Rightarrow> Some (h2, \<lparr>root = Some (length h)\<rparr>))
     else
       (case put_prefix_loop (h @ [Clone (h ! r)]) (length h) key nodes 0 of
          None \<Rightarrow> None
        | Some (h2, parent, index) \<Rightarrow>
            (case put_fresh_loop h2 parent key index of
               None \<Rightarrow> None
             | Some (h3, parent') \<Rightarrow>
                 Some (assign_child (h3 @ [TrieNodeWithValue_leaf v]) parent' (last key) (length h3),
                       \<lparr>root = Some (length h)\<rparr>))))"
  using assms by (simp add: Put_def make_shared_def split: option.splits prod.splits)

text \<open>\<open>Put\<close> never writes to a node of the store it started from, and the new root is
  a new node.\<close>

lemma Put_frame:
  assumes "Put h t key v = Some (h', t')"
  shows "prefix h h' \<and> (\<exists>r'. root t' = Some r' \<and> length h \<le> r' \<and> r' < length h')"
proof (cases "key = []")
  case True
  then show ?thesis using assms by (auto simp: Put_empty_key)
next
  case ne: False
  show ?thesis
  proof (cases "root t")
    case None
    have "differs_at (h @ [TrieNode_default]) (length h)
        (put_empty_loop (h @ [TrieNode_default]) (length h) key v)"
      using put_empty_loop_frame [of "length h" "h @ [TrieNode_default]" key v] by simp
    moreover have "prefix h (h @ [TrieNode_default])" by simp
    ultimately have "prefix h (put_empty_loop (h @ [TrieNode_default]) (length h) key v)"
      using differs_at_prefix by blast
    moreover have "length h < length (put_empty_loop (h @ [TrieNode_default]) (length h) key v)"
      using \<open>differs_at _ _ _\<close> by (auto simp: differs_at_def)
    ultimately show ?thesis using assms ne None by (auto simp: Put_empty_trie)
  next
    case (Some r)
    obtain nodes rest where pw: "put_walk h r key [] = (nodes, rest)"
      by (cases "put_walk h r key []")
    define h1 where "h1 = h @ [Clone (h ! r)]"
    have p1: "prefix h h1" by (simp add: h1_def)
    show ?thesis
    proof (cases "rest = []")
      case True
      then obtain h2 where l: "put_found_loop h1 (length h) key nodes v = Some h2"
        and res: "h' = h2" "t' = \<lparr>root = Some (length h)\<rparr>"
        using assms by (auto simp: Put_some_root [OF ne Some pw] h1_def split: option.splits)
      have d: "differs_at h1 (length h) h2" using l by (rule put_found_loop_frame)
      then have "prefix h h2" using p1 differs_at_prefix by blast
      moreover have "length h < length h2" using d by (auto simp: differs_at_def h1_def)
      ultimately show ?thesis using res by simp
    next
      case False
      then obtain h2 parent index h3 parent' where
        l1: "put_prefix_loop h1 (length h) key nodes 0 = Some (h2, parent, index)"
        and l2: "put_fresh_loop h2 parent key index = Some (h3, parent')"
        and res: "h' = assign_child (h3 @ [TrieNodeWithValue_leaf v]) parent' (last key) (length h3)"
          "t' = \<lparr>root = Some (length h)\<rparr>"
        using assms by (auto simp: Put_some_root [OF ne Some pw] h1_def split: option.splits)
      have d2: "differs_at h1 (length h) h2" and f2: "parent = length h \<or> length h1 \<le> parent"
        using put_prefix_loop_frame [OF l1] by blast+
      have d3: "differs_at h2 parent h3" and f3: "parent' = parent \<or> length h2 \<le> parent'"
        using put_fresh_loop_frame [OF l2] by blast+
      have d5: "differs_at h3 parent' h'"
        unfolding res by (rule differs_at_step)
      have le2: "length h \<le> parent" using f2 by (auto simp: h1_def)
      have "length h1 \<le> length h2" using d2 by (rule differs_at_length)
      then have le3: "length h \<le> parent'" using f3 le2 by (auto simp: h1_def)
      have "prefix h h2" using p1 d2 by (rule differs_at_prefix) simp
      then have "prefix h h3" using d3 le2 by (rule differs_at_prefix)
      then have "prefix h h'" using d5 le3 by (rule differs_at_prefix)
      moreover have "length h < length h'"
        using d2 d3 d5 by (auto simp: differs_at_def h1_def)
      ultimately show ?thesis using res by simp
    qed
  qed
qed

lemma Put_wf:
  assumes "wf_trie h t" and "Put h t key v = Some (h', t')"
  shows "wf_trie h' t'"
proof -
  have cl: "closed_heap h" using assms(1) by (rule wf_trie_closed)
  have root: "\<exists>r'. root t' = Some r' \<and> r' < length h'"
    using Put_frame [OF assms(2)] by blast
  have "closed_heap h'"
  proof (cases "key = []")
    case True
    have "closed_heap (h @ [TrieNodeWithValue (case root t of None \<Rightarrow> [] | Some r \<Rightarrow> children (h ! r)) v])"
      using cl assms(1)
      by (intro closed_heap_append)
        (auto simp: TrieNodeWithValue_def wf_trie_def split: option.splits dest: closed_heap_children_old)
    then show ?thesis using assms(2) True by (simp add: Put_empty_key)
  next
    case ne: False
    show ?thesis
    proof (cases "root t")
      case None
      have "closed_heap (h @ [TrieNode_default])"
        using cl by (intro closed_heap_append) (auto simp: TrieNode_default_def)
      then have "closed_heap (put_empty_loop (h @ [TrieNode_default]) (length h) key v)"
        by (intro put_empty_loop_closed) auto
      then show ?thesis using assms(2) ne None by (simp add: Put_empty_trie)
    next
      case (Some r)
      have r: "r < length h" using assms(1) Some by (rule wf_trie_root)
      obtain nodes rest where pw: "put_walk h r key [] = (nodes, rest)"
        by (cases "put_walk h r key []")
      obtain pre where "on_path h r pre nodes"
        using put_walk_spec [OF pw] by auto
      then have nodes: "\<forall>n\<in>set nodes. n < length h"
        using cl r on_path_range by blast
      define h1 where "h1 = h @ [Clone (h ! r)]"
      have c1: "closed_heap h1"
        unfolding h1_def using cl r
        by (intro closed_heap_append) (auto simp: Clone_def dest: closed_heap_children_old)
      have n1: "\<forall>n\<in>set nodes. n < length h1" using nodes by (auto simp: h1_def)
      show ?thesis
      proof (cases "rest = []")
        case True
        then obtain h2 where l: "put_found_loop h1 (length h) key nodes v = Some h2"
          and res: "h' = h2"
          using assms(2) by (auto simp: Put_some_root [OF ne Some pw] h1_def split: option.splits)
        show ?thesis using put_found_loop_closed [OF l c1 n1] res by simp
      next
        case False
        then obtain h2 parent index h3 parent' where
          l1: "put_prefix_loop h1 (length h) key nodes 0 = Some (h2, parent, index)"
          and l2: "put_fresh_loop h2 parent key index = Some (h3, parent')"
          and res: "h' = assign_child (h3 @ [TrieNodeWithValue_leaf v]) parent' (last key) (length h3)"
          using assms(2) by (auto simp: Put_some_root [OF ne Some pw] h1_def split: option.splits)
        have "closed_heap h2 \<and> parent < length h2"
          using put_prefix_loop_closed [OF l1 c1 _ n1] by (simp add: h1_def)
        then have "closed_heap h3"
          using put_fresh_loop_closed [OF l2] by blast
        then show ?thesis
          unfolding res by (intro closed_heap_step) (auto simp: TrieNodeWithValue_leaf_def)
      qed
    qed
  qed
  then show ?thesis using root by (auto simp: wf_trie_def)
qed

text \<open>What the trie returned by \<open>Put\<close> holds: the value under the key, and under every
  other key what the trie held before.  When the walk stops early the key has to be
  shorter than \<open>2\<^sup>3\<^sup>1\<close> bytes for the counter of lines 106-120 not to wrap around.\<close>

lemma Put_contents:
  assumes wf: "wf_trie h t"
    and bound: "length key < 2147483648 \<or> root t = None"
  shows "\<exists>h' t'. Put h t key v = Some (h', t') \<and> contents h' t' = (contents h t)(key \<mapsto> v)"
proof -
  have cl: "closed_heap h" using wf by (rule wf_trie_closed)
  show ?thesis
  proof (cases "key = []")
    case True
    define n where "n = TrieNodeWithValue (case root t of None \<Rightarrow> [] | Some r \<Rightarrow> children (h ! r)) v"
    have "lookup (h @ [n]) (length h) k = ((contents h t)([] \<mapsto> v)) k" for k
    proof (cases k)
      case Nil
      then show ?thesis by (simp add: n_def TrieNodeWithValue_def)
    next
      case (Cons c k2)
      show ?thesis
      proof (cases "root t")
        case None
        then show ?thesis using Cons
          by (simp add: n_def TrieNodeWithValue_def lookup_Cons contents_def)
      next
        case (Some r)
        have "r < length h" using wf Some by (rule wf_trie_root)
        moreover have "children ((h @ [n]) ! length h) = children (h ! r)"
          using Some by (simp add: n_def TrieNodeWithValue_def)
        moreover have "prefix h (h @ [n])" by simp
        ultimately have "lookup (h @ [n]) (length h) (c # k2) = lookup h r (c # k2)"
          using cl lookup_same_children by blast
        then show ?thesis using Cons Some by (simp add: contents_def)
      qed
    qed
    then show ?thesis
      using True by (auto simp: Put_empty_key n_def contents_def)
  next
    case ne: False
    show ?thesis
    proof (cases "root t")
      case None
      define h1 where "h1 = h @ [TrieNode_default]"
      have "lookup (put_empty_loop h1 (length h) key v) (length h) k = (if k = key then Some v else None)" for k
        using ne by (intro put_empty_loop_lookup) (simp_all add: h1_def TrieNode_default_def)
      then show ?thesis
        using ne None by (auto simp: Put_empty_trie h1_def contents_def)
    next
      case (Some r)
      have r: "r < length h" using wf Some by (rule wf_trie_root)
      have b: "length key < 2147483648" using bound Some by simp
      obtain nodes rest where pw: "put_walk h r key [] = (nodes, rest)"
        by (cases "put_walk h r key []")
      obtain pre where key: "key = pre @ rest" and path: "on_path h r pre nodes"
        and stop: "case rest of [] \<Rightarrow> True | c # _ \<Rightarrow> map_find (children (h ! last (r # nodes))) c = None"
        using put_walk_spec [OF pw] by auto
      define h1 where "h1 = h @ [Clone (h ! r)]"
      show ?thesis
      proof (cases rest)
        case Nil
        then have path': "on_path h r key nodes" using key path by simp
        have "prefix h h1" by (simp add: h1_def)
        moreover have "length h < length h1" by (simp add: h1_def)
        moreover have "children (h1 ! length h) = children (h ! r)" by (simp add: h1_def Clone_def)
        ultimately obtain h2 where l: "put_found_loop h1 (length h) key nodes v = Some h2"
          and nv: "node_value (h2 ! length h) = node_value (h1 ! length h)"
          and lk: "\<And>k. k \<noteq> [] \<Longrightarrow> lookup h2 (length h) k = (if k = key then Some v else lookup h r k)"
          using put_found_loop_sem [OF cl _ _ _ r _ path' ne, of h1 "length h" v] by auto
        have "lookup h2 (length h) k = ((contents h t)(key \<mapsto> v)) k" for k
        proof (cases "k = []")
          case True
          then show ?thesis using nv ne Some by (simp add: h1_def Clone_def contents_def)
        next
          case False
          then show ?thesis using lk Some by (simp add: contents_def)
        qed
        then show ?thesis
          using l Nil by (auto simp: Put_some_root [OF ne Some pw] h1_def contents_def)
      next
        case (Cons c rest')
        then have key': "key = pre @ c # rest'" and stop': "map_find (children (h ! last (r # nodes))) c = None"
          using key stop by simp_all
        obtain h2 parent index h3 parent' where
          l1: "put_prefix_loop h1 (length h) key nodes 0 = Some (h2, parent, index)"
          and l2: "put_fresh_loop h2 parent key index = Some (h3, parent')"
          and lk: "\<And>k. lookup (assign_child (h3 @ [TrieNodeWithValue_leaf v]) parent' (last key) (length h3))
              (length h) k = (if k = key then Some v else lookup h r k)"
          using put_partial_sem [OF cl r b key' path stop', of v] unfolding h1_def by blast
        show ?thesis
          using l1 l2 lk Cons Some
          by (auto simp: Put_some_root [OF ne Some pw] h1_def contents_def)
      qed
    qed
  qed
qed

lemma to_int32_range: "- 2147483648 \<le> to_int32 x \<and> to_int32 x < 2147483648"
  by (simp add: to_int32_def)

lemma small_bound:
  "n < 2147483648 \<Longrightarrow> to_int32 (static_cast_int n - 1) = int n - 1"
proof -
  assume a: "n < 2147483648"
  then have "static_cast_int n = int n"
    unfolding static_cast_int_def by (intro to_int32_id) auto
  then show ?thesis using a by (simp add: to_int32_id)
qed

text \<open>The starting index of the loop of \<open>Remove\<close> is below the number of nodes, whatever
  that number is.\<close>

lemma remove_start_index:
  "to_int32 (static_cast_int n - 1) < int n"
proof -
  define w where "w = static_cast_int n"
  define q where "q = (int n + 2147483648) div 4294967296"
  have w: "w = int n + 2147483648 - 4294967296 * q - 2147483648"
    unfolding w_def static_cast_int_def to_int32_def q_def
    by (simp add: minus_mult_div_eq_mod)
  have "0 \<le> int n + 2147483648" by simp
  then have q0: "0 \<le> q" unfolding q_def by (simp add: pos_imp_zdiv_nonneg_iff)
  have wr: "- 2147483648 \<le> w" "w < 2147483648"
    unfolding w_def static_cast_int_def using to_int32_range by blast+
  show ?thesis
  proof (cases "w = - 2147483648")
    case True
    then have "to_int32 (w - 1) = 2147483647" by (simp add: to_int32_def)
    moreover have "1 \<le> q" using True w q0 by linarith
    then have "2147483648 \<le> int n" using True w by linarith
    ultimately show ?thesis unfolding w_def by linarith
  next
    case False
    then have "to_int32 (w - 1) = w - 1" using wr by (intro to_int32_id) auto
    moreover have "w \<le> int n" using w q0 by linarith
    ultimately show ?thesis unfolding w_def by linarith
  qed
qed

lemma remove_walk_spec:
  "remove_walk h a key acc = Some (nodes, cur) \<Longrightarrow>
   \<exists>ns. nodes = acc @ ns \<and> length ns = length key \<and> get_walk h a key = Some cur \<and>
     (\<forall>j<length key. get_walk h a (take j key) = Some (ns ! j))"
proof (induction key arbitrary: a acc)
  case Nil
  then show ?case by simp
next
  case (Cons ch key)
  then obtain child where c: "map_find (children (h ! a)) ch = Some child"
    and r: "remove_walk h child key (acc @ [a]) = Some (nodes, cur)"
    by (auto split: option.splits)
  obtain ns where ns: "nodes = (acc @ [a]) @ ns" "length ns = length key"
    "get_walk h child key = Some cur"
    "\<forall>j<length key. get_walk h child (take j key) = Some (ns ! j)"
    using Cons.IH [OF r] by blast
  have "get_walk h a (take j (ch # key)) = Some ((a # ns) ! j)" if "j < length (ch # key)" for j
    using that ns(4) c by (cases j) auto
  then show ?case using ns c by (intro exI [of _ "a # ns"]) auto
qed

lemma differs_at_new_prefix:
  "differs_at (h @ [n]) (length h) h' \<Longrightarrow> prefix h h'"
  by (rule differs_at_prefix [of h "h @ [n]"]) auto

lemma remove_step_prefix:
  "prefix h (erase_child (h @ [n]) (length h) ch) \<and> prefix h (assign_child (h @ [n]) (length h) ch q)"
  by (auto simp: prefix_iff_nth nth_erase_child nth_assign_child nth_append)

lemma remove_step_closed:
  assumes "closed_heap h" and "nd < length h" and "cur < length h"
  shows "closed_heap (erase_child (h @ [Clone (h ! nd)]) (length h) ch)
       \<and> closed_heap (assign_child (h @ [Clone (h ! nd)]) (length h) ch cur)"
proof -
  have "closed_heap (h @ [Clone (h ! nd)])"
    using assms(1,2) by (intro closed_heap_append) (auto simp: Clone_def dest: closed_heap_children_old)
  then show ?thesis
    using assms(3) by (auto intro!: closed_heap_erase_child closed_heap_assign_child)
qed

lemma remove_loop_unfold:
  assumes "cur < length h" and "0 \<le> i" and "at_index key i = Some ch" and "at_index nodes i = Some nd"
  shows "remove_loop h key nodes cur i =
     remove_loop
       (if map_is_empty (children (h ! cur)) \<and> \<not> is_value_node (h ! cur)
        then erase_child (h @ [Clone (h ! nd)]) (length h) ch
        else assign_child (h @ [Clone (h ! nd)]) (length h) ch cur)
       key nodes (length h) (to_int32 (i - 1))"
  using assms by (subst remove_loop.simps) (simp add: make_shared_def nth_append)

lemma remove_loop_exit: "i < 0 \<Longrightarrow> remove_loop h key nodes cur i = Some (h, cur)"
  by (subst remove_loop.simps) simp

lemma dead_lookup:
  "children (h ! cur) = [] \<Longrightarrow> node_value (h ! cur) = None \<Longrightarrow> lookup h cur s = None"
  by (cases s) (simp_all add: lookup_Cons)

lemma remove_loop_sem:
  assumes cl0: "closed_heap h0" and r: "r < length h0"
    and len: "length nodes = length key" and bound: "length key < 2147483648"
    and path: "\<forall>j<length key. get_walk h0 r (take j key) = Some (nodes ! j)"
  shows "m \<le> length key \<Longrightarrow> closed_heap h \<Longrightarrow> prefix h0 h \<Longrightarrow> cur < length h \<Longrightarrow>
    get_walk h0 r (take m key) = Some x \<Longrightarrow>
    (\<forall>s. lookup h cur s = (if s = drop m key then None else lookup h0 x s)) \<Longrightarrow>
    \<exists>h' cur'. remove_loop h key nodes cur (int m - 1) = Some (h', cur') \<and>
      closed_heap h' \<and> prefix h h' \<and> cur' < length h' \<and>
      (\<forall>s. lookup h' cur' s = (if s = key then None else lookup h0 r s))"
proof (induction m arbitrary: h cur x)
  case 0
  then show ?case by (simp add: remove_loop_exit)
next
  case (Suc m)
  have m: "m < length key" using Suc.prems(1) by simp
  define ch where "ch = key ! m"
  define nd where "nd = nodes ! m"
  have wnd: "get_walk h0 r (take m key) = Some nd" using path m by (simp add: nd_def)
  have nd_lt: "nd < length h0" using cl0 r wnd by (rule get_walk_range)
  have hnd: "h ! nd = h0 ! nd" using Suc.prems(3) nd_lt prefix_nth by blast
  have "take (Suc m) key = take m key @ [ch]"
    using m by (simp add: ch_def take_Suc_conv_app_nth)
  then have "get_walk h0 nd [ch] = Some x"
    using Suc.prems(5) wnd by (simp add: get_walk_append)
  then have ndx: "map_find (children (h0 ! nd)) ch = Some x"
    by (simp split: option.splits)
  have dropm: "drop m key = ch # drop (Suc m) key"
    using m by (simp add: ch_def Cons_nth_drop_Suc)
  define dead where "dead = (map_is_empty (children (h ! cur)) \<and> \<not> is_value_node (h ! cur))"
  define h2 where "h2 = (if dead then erase_child (h @ [Clone (h ! nd)]) (length h) ch
        else assign_child (h @ [Clone (h ! nd)]) (length h) ch cur)"
  have at: "at_index key (int m) = Some ch" "at_index nodes (int m) = Some nd"
    using m len by (simp_all add: at_index_def ch_def nd_def)
  have nx: "to_int32 (int m - 1) = int m - 1"
    using m bound by (intro to_int32_id) auto
  have step: "remove_loop h key nodes cur (int (Suc m) - 1) = remove_loop h2 key nodes (length h) (int m - 1)"
    using remove_loop_unfold [OF Suc.prems(4) _ at] nx by (simp add: h2_def dead_def)
  have nd_lth: "nd < length h" using nd_lt Suc.prems(3) prefix_length_le by fastforce
  have c2: "closed_heap h2"
    using remove_step_closed [OF Suc.prems(2) nd_lth Suc.prems(4)] by (simp add: h2_def)
  have p2: "prefix h h2"
    using remove_step_prefix by (simp add: h2_def)
  have p02: "prefix h0 h2" using Suc.prems(3) p2 by (rule prefix_order.trans)
  have len2: "length h2 = Suc (length h)" by (simp add: h2_def)
  have new2: "h2 ! length h = (h0 ! nd)\<lparr>children :=
      (if dead then AList.delete ch (children (h0 ! nd)) else AList.update ch cur (children (h0 ! nd)))\<rparr>"
    by (simp add: h2_def nth_erase_child nth_assign_child Clone_def hnd)
  have deadNone: "lookup h cur s = None" if dead for s
    using that by (intro dead_lookup) (simp_all add: dead_def map_is_empty_def is_value_node_def)
  have inv2: "lookup h2 (length h) s = (if s = drop m key then None else lookup h0 nd s)" for s
  proof (cases s)
    case Nil
    then show ?thesis using new2 dropm by simp
  next
    case (Cons c s2)
    show ?thesis
    proof (cases "c = ch")
      case True
      have i: "lookup h cur s2 = (if s2 = drop (Suc m) key then None else lookup h0 x s2)"
        using Suc.prems(6) by blast
      show ?thesis
      proof (cases dead)
        case True
        then have "(if s2 = drop (Suc m) key then None else lookup h0 x s2) = None"
          using i deadNone [of s2] by simp
        then show ?thesis using True \<open>c = ch\<close> Cons new2 dropm ndx
          by (simp add: lookup_Cons map_find_delete split: if_splits)
      next
        case False
        have "lookup h2 cur s2 = lookup h cur s2"
          using Suc.prems(2) p2 Suc.prems(4) by (rule lookup_ext)
        then show ?thesis using \<open>c = ch\<close> Cons new2 dropm ndx i False
          by (simp add: lookup_Cons map_find_update)
      qed
    next
      case False
      have f: "map_find (children (h2 ! length h)) c = map_find (children (h0 ! nd)) c"
        using False new2 by (simp add: map_find_update map_find_delete)
      show ?thesis
      proof (cases "map_find (children (h0 ! nd)) c")
        case None
        then show ?thesis using False Cons f dropm by (simp add: lookup_Cons)
      next
        case (Some b)
        then have "b < length h0" using cl0 nd_lt closed_heap_child by blast
        then have "lookup h2 b s2 = lookup h0 b s2"
          using cl0 p02 lookup_ext by blast
        then show ?thesis using False Cons f dropm Some by (simp add: lookup_Cons)
      qed
    qed
  qed
  obtain h' cur' where res: "remove_loop h2 key nodes (length h) (int m - 1) = Some (h', cur')"
    "closed_heap h'" "prefix h2 h'" "cur' < length h'"
    "\<forall>s. lookup h' cur' s = (if s = key then None else lookup h0 r s)"
    using Suc.IH [OF _ c2 p02 _ wnd, of "length h"] m len2 inv2 by auto
  have "prefix h h'" using p2 res(3) by (rule prefix_order.trans)
  then show ?case unfolding step using res by blast
qed

lemma to_int32_pred_less: "0 \<le> i \<Longrightarrow> to_int32 (i - 1) < i"
proof -
  assume "0 \<le> i"
  then have "(i - 1 + 2147483648) mod 4294967296 \<le> i - 1 + 2147483648"
    by (intro zmod_le_nonneg_dividend) simp
  then show ?thesis by (simp add: to_int32_def)
qed

text \<open>The loop of \<open>Remove\<close> returns for every starting index below the number of
  nodes, and only adds nodes to the store.\<close>

lemma remove_loop_returns:
  assumes "\<forall>n\<in>set nodes. n < length h0"
  shows "nat (i + 1) = n \<Longrightarrow> closed_heap h \<Longrightarrow> length h0 \<le> length h \<Longrightarrow> cur < length h \<Longrightarrow>
    i < int (length key) \<Longrightarrow> i < int (length nodes) \<Longrightarrow>
    \<exists>h' cur'. remove_loop h key nodes cur i = Some (h', cur') \<and>
      closed_heap h' \<and> prefix h h' \<and> cur' < length h'"
proof (induction n arbitrary: i h cur rule: less_induct)
  case (less n)
  show ?case
  proof (cases "i < 0")
    case True
    then show ?thesis using less.prems by (simp add: remove_loop_exit)
  next
    case False
    then have i0: "0 \<le> i" by simp
    define ch where "ch = key ! nat i"
    define nd where "nd = nodes ! nat i"
    have at: "at_index key i = Some ch" "at_index nodes i = Some nd"
      using i0 less.prems(5,6) by (simp_all add: at_index_def ch_def nd_def)
    have "nd \<in> set nodes" using i0 less.prems(6) by (simp add: nd_def)
    then have nd_lt: "nd < length h" using assms less.prems(3) by fastforce
    define h2 where "h2 = (if map_is_empty (children (h ! cur)) \<and> \<not> is_value_node (h ! cur)
        then erase_child (h @ [Clone (h ! nd)]) (length h) ch
        else assign_child (h @ [Clone (h ! nd)]) (length h) ch cur)"
    have step: "remove_loop h key nodes cur i = remove_loop h2 key nodes (length h) (to_int32 (i - 1))"
      using remove_loop_unfold [OF less.prems(4) i0 at] by (simp add: h2_def)
    have c2: "closed_heap h2"
      using remove_step_closed [OF less.prems(2) nd_lt less.prems(4)] by (simp add: h2_def)
    have p2: "prefix h h2"
      using remove_step_prefix by (simp add: h2_def)
    have len2: "length h2 = Suc (length h)" by (simp add: h2_def)
    have lt: "to_int32 (i - 1) < i" using i0 by (rule to_int32_pred_less)
    have ge: "- 2147483648 \<le> to_int32 (i - 1)" using to_int32_range by blast
    have dec: "nat (to_int32 (i - 1) + 1) < n" using lt i0 less.prems(1) by linarith
    obtain h' cur' where res: "remove_loop h2 key nodes (length h) (to_int32 (i - 1)) = Some (h', cur')"
      "closed_heap h'" "prefix h2 h'" "cur' < length h'"
      using less.IH [OF dec refl c2, of "length h"] less.prems(3,5,6) lt len2 by auto
    have "prefix h h'" using p2 res(3) by (rule prefix_order.trans)
    then show ?thesis unfolding step using res by blast
  qed
qed

lemma Remove_value:
  assumes "root t = Some r" and "remove_walk h r key [] = Some (nodes, cur)"
    and "is_value_node (h ! cur)"
  shows "Remove h t key =
    (case remove_loop (h @ [TrieNode_of (children (h ! cur))]) key nodes (length h)
            (to_int32 (static_cast_int (length nodes) - 1)) of
       None \<Rightarrow> None
     | Some (h2, cur2) \<Rightarrow>
         if map_is_empty (children (h2 ! cur2)) \<and> \<not> is_value_node (h2 ! cur2)
         then Some (h2, \<lparr>root = None\<rparr>)
         else Some (h2, \<lparr>root = Some cur2\<rparr>))"
  using assms by (simp add: Remove_def make_shared_def)

lemma Remove_cases:
  obtains (unchanged) "Remove h t key = Some (h, t)"
      "root t = None \<or> (\<exists>r. root t = Some r \<and> (get_walk h r key = None \<or>
          (\<exists>cur. get_walk h r key = Some cur \<and> \<not> is_value_node (h ! cur))))"
    | (removed) r nodes cur where "root t = Some r" "remove_walk h r key [] = Some (nodes, cur)"
      "is_value_node (h ! cur)"
proof (cases "root t = None \<or> (\<exists>r. root t = Some r \<and> (get_walk h r key = None \<or>
          (\<exists>cur. get_walk h r key = Some cur \<and> \<not> is_value_node (h ! cur))))")
  case True
  then show ?thesis using unchanged Remove_noop by blast
next
  case False
  then obtain r where r: "root t = Some r" by auto
  then obtain cur where c: "get_walk h r key = Some cur" "is_value_node (h ! cur)"
    using False by auto
  then have "remove_walk h r key [] \<noteq> None" by (simp add: remove_walk_None)
  then obtain nodes cur' where rw: "remove_walk h r key [] = Some (nodes, cur')" by auto
  then have "cur' = cur" using c(1) remove_walk_Some by fastforce
  then show ?thesis using removed r rw c(2) by blast
qed

lemma remove_walk_nodes_range:
  assumes "closed_heap h" and "r < length h" and "remove_walk h r key [] = Some (nodes, cur)"
  shows "(\<forall>n\<in>set nodes. n < length h) \<and> cur < length h \<and> length nodes = length key"
proof -
  obtain ns where ns: "nodes = [] @ ns" "length ns = length key" "get_walk h r key = Some cur"
    "\<forall>j<length key. get_walk h r (take j key) = Some (ns ! j)"
    using remove_walk_spec [OF assms(3)] by blast
  have "n < length h" if n: "n \<in> set nodes" for n
  proof -
    obtain j where "j < length nodes" "nodes ! j = n" using n by (auto simp: in_set_conv_nth)
    then have "get_walk h r (take j key) = Some n" using ns by simp
    then show ?thesis using assms(1,2) get_walk_range by blast
  qed
  moreover have "cur < length h" using assms(1,2) ns(3) get_walk_range by blast
  ultimately show ?thesis using ns by simp
qed

text \<open>\<open>Remove\<close> always returns, never writes to a node of the store it started from,
  and returns a well-formed trie.\<close>

lemma Remove_frame:
  assumes wf: "wf_trie h t"
  shows "\<exists>h' t'. Remove h t key = Some (h', t') \<and> prefix h h' \<and> wf_trie h' t'"
proof (cases rule: Remove_cases [of h t key])
  case unchanged
  then show ?thesis using wf by simp
next
  case (removed r nodes cur)
  have cl: "closed_heap h" using wf by (rule wf_trie_closed)
  have r: "r < length h" using wf removed(1) by (rule wf_trie_root)
  have rng: "\<forall>n\<in>set nodes. n < length h" "cur < length h" "length nodes = length key"
    using remove_walk_nodes_range [OF cl r removed(2)] by blast+
  define h1 where "h1 = h @ [TrieNode_of (children (h ! cur))]"
  define i where "i = to_int32 (static_cast_int (length nodes) - 1)"
  have c1: "closed_heap h1"
    unfolding h1_def using cl rng(2)
    by (intro closed_heap_append) (auto simp: TrieNode_of_def dest: closed_heap_children_old)
  have i_lt: "i < int (length nodes)" unfolding i_def by (rule remove_start_index)
  obtain h2 cur2 where res: "remove_loop h1 key nodes (length h) i = Some (h2, cur2)"
    "closed_heap h2" "prefix h1 h2" "cur2 < length h2"
    using remove_loop_returns [OF rng(1) refl c1, of "length h" i key] i_lt rng(3)
    by (auto simp: h1_def)
  have "prefix h h2" using res(3) by (auto simp: h1_def prefix_def)
  then show ?thesis
    using res by (auto simp: Remove_value [OF removed] h1_def [symmetric] i_def [symmetric] wf_trie_def)
qed

text \<open>What the trie returned by \<open>Remove\<close> holds, for a key shorter than \<open>2\<^sup>3\<^sup>1\<close>
  bytes.\<close>

lemma Remove_contents:
  assumes wf: "wf_trie h t" and bound: "length key < 2147483648"
  shows "\<exists>h' t'. Remove h t key = Some (h', t') \<and> contents h' t' = (contents h t)(key := None)"
proof (cases rule: Remove_cases [of h t key])
  case unchanged
  have "contents h t key = None"
    using unchanged(2) by (auto simp: contents_def lookup_def is_value_node_def)
  then have "(contents h t)(key := None) = contents h t" by auto
  then show ?thesis using unchanged(1) by simp
next
  case (removed r nodes cur)
  have cl: "closed_heap h" using wf by (rule wf_trie_closed)
  have r: "r < length h" using wf removed(1) by (rule wf_trie_root)
  obtain ns where ns: "nodes = [] @ ns" "length ns = length key" "get_walk h r key = Some cur"
    "\<forall>j<length key. get_walk h r (take j key) = Some (ns ! j)"
    using remove_walk_spec [OF removed(2)] by blast
  have cur: "cur < length h" using cl r ns(3) by (rule get_walk_range)
  define h1 where "h1 = h @ [TrieNode_of (children (h ! cur))]"
  have c1: "closed_heap h1"
    unfolding h1_def using cl cur
    by (intro closed_heap_append) (auto simp: TrieNode_of_def dest: closed_heap_children_old)
  have p1: "prefix h h1" by (simp add: h1_def)
  have inv: "lookup h1 (length h) s = (if s = drop (length key) key then None else lookup h cur s)" for s
  proof (cases s)
    case Nil
    then show ?thesis by (simp add: h1_def TrieNode_of_def)
  next
    case (Cons c s2)
    have "children (h1 ! length h) = children (h ! cur)" by (simp add: h1_def TrieNode_of_def)
    then show ?thesis using Cons lookup_same_children [OF cl p1 cur] by simp
  qed
  have i: "to_int32 (static_cast_int (length nodes) - 1) = int (length key) - 1"
    using ns bound by (simp add: small_bound)
  obtain h2 cur2 where res: "remove_loop h1 key nodes (length h) (int (length key) - 1) = Some (h2, cur2)"
    and lk: "\<forall>s. lookup h2 cur2 s = (if s = key then None else lookup h r s)"
    using remove_loop_sem [OF cl r _ bound, of nodes "length key" h1 "length h" cur] ns c1 p1 inv
    by (auto simp: h1_def)
  have rem: "Remove h t key =
      (if map_is_empty (children (h2 ! cur2)) \<and> \<not> is_value_node (h2 ! cur2)
       then Some (h2, \<lparr>root = None\<rparr>) else Some (h2, \<lparr>root = Some cur2\<rparr>))"
    using res by (simp add: Remove_value [OF removed] h1_def [symmetric] i)
  show ?thesis
  proof (cases "map_is_empty (children (h2 ! cur2)) \<and> \<not> is_value_node (h2 ! cur2)")
    case True
    then have "lookup h2 cur2 s = None" for s
      by (intro dead_lookup) (simp_all add: map_is_empty_def is_value_node_def)
    then have "s \<noteq> key \<Longrightarrow> lookup h r s = None" for s
      using lk by (metis (full_types))
    then have "(contents h t)(key := None) = (\<lambda>s. None)"
      using removed(1) by (auto simp: contents_def fun_eq_iff)
    moreover have "contents h2 \<lparr>root = None\<rparr> = (\<lambda>s. None)"
      by (simp add: contents_def fun_eq_iff)
    ultimately show ?thesis using True rem by simp
  next
    case False
    have "contents h2 \<lparr>root = Some cur2\<rparr> = (contents h t)(key := None)"
      using lk removed(1) by (auto simp: contents_def fun_eq_iff)
    then show ?thesis using False rem by auto
  qed
qed

lemma Get_ext:
  assumes "wf_trie h t" and "prefix h h'"
  shows "Get h' t T key = Get h t T key"
proof (cases "root t")
  case None
  then show ?thesis by (simp add: Get_def)
next
  case (Some r)
  have "lookup h' r key = lookup h r key"
    using wf_trie_closed [OF assms(1)] assms(2) wf_trie_root [OF assms(1) Some] by (rule lookup_ext)
  then show ?thesis using Some by (simp add: Get_contents contents_def)
qed

lemma no_dead_unfold:
  "no_dead h a \<longleftrightarrow> \<not> dead (h ! a) \<and> children_ok h a"
proof
  assume nd: "no_dead h a"
  have "get_walk h a [] = Some a" by simp
  then have "\<not> dead (h ! a)" using nd unfolding no_dead_def by blast
  moreover have "no_dead h b" if c: "map_find (children (h ! a)) c = Some b" for c b
    unfolding no_dead_def
  proof (intro allI impI)
    fix key x assume "get_walk h b key = Some x"
    then have "get_walk h a (c # key) = Some x" using c by simp
    then show "\<not> dead (h ! x)" using nd unfolding no_dead_def by blast
  qed
  ultimately show "\<not> dead (h ! a) \<and> children_ok h a" by (simp add: children_ok_def)
next
  assume a: "\<not> dead (h ! a) \<and> children_ok h a"
  show "no_dead h a"
    unfolding no_dead_def
  proof (intro allI impI)
    fix key x assume w: "get_walk h a key = Some x"
    show "\<not> dead (h ! x)"
    proof (cases key)
      case Nil
      then show ?thesis using a w by simp
    next
      case (Cons c k2)
      then obtain b where "map_find (children (h ! a)) c = Some b" "get_walk h b k2 = Some x"
        using w by (auto split: option.splits)
      then show ?thesis using a unfolding children_ok_def no_dead_def by blast
    qed
  qed
qed

lemma no_dead_ext:
  assumes "closed_heap h" and "prefix h h'" and "a < length h"
  shows "no_dead h' a \<longleftrightarrow> no_dead h a"
proof -
  have "dead (h' ! b) = dead (h ! b)" if w: "get_walk h a key = Some b" for key b
  proof -
    have "b < length h" using assms(1,3) w by (rule get_walk_range)
    then show ?thesis using assms(2) prefix_nth by fastforce
  qed
  moreover have "get_walk h' a key = get_walk h a key" for key
    using assms by (rule get_walk_ext)
  ultimately show ?thesis unfolding no_dead_def by auto
qed

lemma no_dead_walk:
  assumes "no_dead h a" and "get_walk h a k = Some b"
  shows "no_dead h b"
  unfolding no_dead_def
proof (intro allI impI)
  fix key x assume "get_walk h b key = Some x"
  then have "get_walk h a (k @ key) = Some x"
    using assms(2) by (simp add: get_walk_append)
  then show "\<not> dead (h ! x)" using assms(1) unfolding no_dead_def by blast
qed

lemma no_dead_child:
  "no_dead h a \<Longrightarrow> map_find (children (h ! a)) c = Some b \<Longrightarrow> no_dead h b"
  using no_dead_unfold children_ok_def by blast

text \<open>When all new nodes are in order, no dead node is reached from a new node or from
  an old node that reached none before.\<close>

lemma good_no_dead_walk:
  assumes "closed_heap h0" and "prefix h0 h" and "good h0 h"
  shows "(length h0 \<le> a \<and> a < length h) \<or> (a < length h0 \<and> no_dead h0 a) \<Longrightarrow>
    get_walk h a key = Some b \<Longrightarrow> \<not> dead (h ! b)"
proof (induction key arbitrary: a)
  case Nil
  then have ba: "b = a" by simp
  show ?case
  proof (cases "a < length h0")
    case True
    then have "h ! a = h0 ! a" using assms(2) prefix_nth by blast
    moreover have "\<not> dead (h0 ! a)" using Nil.prems(1) True no_dead_unfold by auto
    ultimately show ?thesis using ba by simp
  next
    case False
    then show ?thesis using Nil.prems(1) assms(3) ba by (auto simp: good_def)
  qed
next
  case (Cons c key)
  obtain x where x: "map_find (children (h ! a)) c = Some x" and w: "get_walk h x key = Some b"
    using Cons.prems(2) by (auto split: option.splits)
  have "(length h0 \<le> x \<and> x < length h) \<or> (x < length h0 \<and> no_dead h0 x)"
  proof (cases "a < length h0")
    case True
    then have "h ! a = h0 ! a" using assms(2) prefix_nth by blast
    then have x0: "map_find (children (h0 ! a)) c = Some x" using x by simp
    then have "x < length h0" using assms(1) True closed_heap_child by blast
    moreover have "no_dead h0 x" using Cons.prems(1) True x0 no_dead_child by auto
    ultimately show ?thesis by simp
  next
    case False
    then have "new_ok h0 h a" using Cons.prems(1) assms(3) by (auto simp: good_def)
    then show ?thesis using x unfolding new_ok_def by blast
  qed
  then show ?case using Cons.IH w by blast
qed

lemma good_no_dead:
  assumes "closed_heap h0" and "prefix h0 h" and "good h0 h"
    and "length h0 \<le> a" and "a < length h"
  shows "no_dead h a"
  unfolding no_dead_def using good_no_dead_walk [OF assms(1-3)] assms(4,5) by blast

lemma not_dead_update:
  "\<not> dead (n\<lparr>children := AList.update c q (children n)\<rparr>)"
  by (cases "children n") (auto simp: dead_def map_is_empty_def)

lemma new_ok_mono:
  "new_ok h0 h a \<Longrightarrow> length h \<le> length h' \<Longrightarrow> h' ! a = h ! a \<Longrightarrow> new_ok h0 h' a"
  unfolding new_ok_def by fastforce

lemma old_children_ok:
  assumes "closed_heap h0" and "nd < length h0" and "no_dead h0 nd"
    and "map_find (children (h0 ! nd)) c = Some b"
  shows "b < length h0 \<and> no_dead h0 b"
  using assms closed_heap_child no_dead_child by blast

text \<open>One step of the loops of \<open>Put\<close>: a new node, linked into its parent.\<close>

lemma step_nth:
  assumes "parent < length h"
  shows "assign_child (h @ [n]) parent ch (length h) ! length h = n"
    and "assign_child (h @ [n]) parent ch (length h) ! parent =
           (h ! parent)\<lparr>children := AList.update ch (length h) (children (h ! parent))\<rparr>"
    and "a < length h \<Longrightarrow> a \<noteq> parent \<Longrightarrow> assign_child (h @ [n]) parent ch (length h) ! a = h ! a"
  using assms by (simp_all add: nth_assign_child nth_append)

lemma step_new_ok:
  assumes g: "good_except h0 h parent" and p: "length h0 \<le> parent" "parent < length h"
    and n: "\<forall>c b. map_find (children n) c = Some b \<longrightarrow> b < length h0 \<and> no_dead h0 b"
    and a: "length h0 \<le> a" "a < Suc (length h)"
  shows "new_ok h0 (assign_child (h @ [n]) parent ch (length h)) a"
proof -
  define h2 where "h2 = assign_child (h @ [n]) parent ch (length h)"
  have len: "length h2 = Suc (length h)" by (simp add: h2_def)
  note nth = step_nth [OF p(2), where n = n and ch = ch, folded h2_def]
  consider "a = length h" | "a = parent" | "a < length h" "a \<noteq> parent"
    using a by linarith
  then have "new_ok h0 h2 a"
  proof cases
    case 1
    then show ?thesis using nth(1) n by (simp add: new_ok_def)
  next
    case 2
    have oka: "new_ok h0 h parent" using g p by (simp add: good_except_def)
    show ?thesis
      unfolding new_ok_def
    proof (intro allI impI)
      fix c b assume "map_find (children (h2 ! a)) c = Some b"
      then have "map_find (AList.update ch (length h) (children (h ! parent))) c = Some b"
        using 2 nth(2) by simp
      then have "b = length h \<or> map_find (children (h ! parent)) c = Some b"
        by (simp add: map_find_update split: if_splits)
      then show "b < length h0 \<and> no_dead h0 b \<or> length h0 \<le> b \<and> b < length h2"
      proof
        assume "b = length h"
        then show ?thesis using p len by simp
      next
        assume "map_find (children (h ! parent)) c = Some b"
        then have "b < length h0 \<and> no_dead h0 b \<or> length h0 \<le> b \<and> b < length h"
          using oka unfolding new_ok_def by blast
        then show ?thesis using len by auto
      qed
    qed
  next
    case 3
    have f1: "new_ok h0 h a" using g a(1) 3(1) by (simp add: good_except_def)
    have f2: "h2 ! a = h ! a" using nth(3) 3 by simp
    show ?thesis by (rule new_ok_mono [OF f1 _ f2]) (simp add: len)
  qed
  then show ?thesis by (simp add: h2_def)
qed

lemma step_not_dead:
  assumes g: "good_except h0 h parent" and p: "length h0 \<le> parent" "parent < length h"
    and a: "length h0 \<le> a" "a < length h"
  shows "\<not> dead (assign_child (h @ [n]) parent ch (length h) ! a)"
proof (cases "a = parent")
  case True
  then show ?thesis using step_nth(2) [OF p(2)] not_dead_update by simp
next
  case False
  then have "\<not> dead (h ! a)" using g a by (simp add: good_except_def)
  then show ?thesis using step_nth(3) [OF p(2) a(2) False] by simp
qed

lemma good_except_step:
  assumes g: "good_except h0 h parent" and p: "length h0 \<le> parent" "parent < length h"
    and n: "\<forall>c b. map_find (children n) c = Some b \<longrightarrow> b < length h0 \<and> no_dead h0 b"
  shows "good_except h0 (assign_child (h @ [n]) parent ch (length h)) (length h)"
  unfolding good_except_def
proof (intro allI impI conjI)
  fix a assume a: "length h0 \<le> a \<and> a < length (assign_child (h @ [n]) parent ch (length h))"
  then show "new_ok h0 (assign_child (h @ [n]) parent ch (length h)) a"
    using step_new_ok [OF g p n] by simp
  assume "a \<noteq> length h"
  then have "a < length h" using a by simp
  then show "\<not> dead (assign_child (h @ [n]) parent ch (length h) ! a)"
    using step_not_dead [OF g p] a by blast
qed

lemma good_step:
  assumes g: "good_except h0 h parent" and p: "length h0 \<le> parent" "parent < length h"
    and n: "\<forall>c b. map_find (children n) c = Some b \<longrightarrow> b < length h0 \<and> no_dead h0 b"
    and live: "\<not> dead n"
  shows "good h0 (assign_child (h @ [n]) parent ch (length h))"
  unfolding good_def
proof (intro allI impI conjI)
  fix a assume a: "length h0 \<le> a \<and> a < length (assign_child (h @ [n]) parent ch (length h))"
  then show "new_ok h0 (assign_child (h @ [n]) parent ch (length h)) a"
    using step_new_ok [OF g p n] by simp
  show "\<not> dead (assign_child (h @ [n]) parent ch (length h) ! a)"
  proof (cases "a = length h")
    case True
    then show ?thesis using step_nth(1) [OF p(2)] live by simp
  next
    case False
    then have "a < length h" using a by simp
    then show ?thesis using step_not_dead [OF g p] a by blast
  qed
qed

lemma good_imp_good_except: "good h0 h \<Longrightarrow> good_except h0 h p"
  by (simp add: good_def good_except_def)

lemma good_except_append:
  assumes "\<forall>c b. map_find (children n) c = Some b \<longrightarrow> b < length h \<and> no_dead h b"
  shows "good_except h (h @ [n]) (length h)"
  using assms by (auto simp: good_except_def new_ok_def less_Suc_eq)

lemma good_append:
  assumes "\<forall>c b. map_find (children n) c = Some b \<longrightarrow> b < length h \<and> no_dead h b"
    and "\<not> dead n"
  shows "good h (h @ [n])"
  using assms by (auto simp: good_def new_ok_def less_Suc_eq)

lemma on_path_no_dead:
  "no_dead h a \<Longrightarrow> on_path h a k ns \<Longrightarrow> \<forall>n\<in>set ns. no_dead h n"
  by (induction h a k ns rule: on_path.induct) (auto dest: no_dead_child)

lemma clone_children_ok:
  assumes "closed_heap h0" and "prefix h0 h" and "nd < length h0" and "no_dead h0 nd"
  shows "\<forall>c b. map_find (children (h ! nd)) c = Some b \<longrightarrow> b < length h0 \<and> no_dead h0 b"
proof -
  have "h ! nd = h0 ! nd" using assms(2,3) prefix_nth by blast
  then show ?thesis using old_children_ok [OF assms(1,3,4)] by simp
qed

lemma clone_not_dead:
  assumes "prefix h0 h" and "nd < length h0" and "no_dead h0 nd"
  shows "\<not> dead (h ! nd)"
proof -
  have "h ! nd = h0 ! nd" using assms(1,2) prefix_nth by blast
  then show ?thesis using assms(3) no_dead_unfold by simp
qed

lemma step_prefix:
  "prefix h0 h \<Longrightarrow> length h0 \<le> parent \<Longrightarrow> prefix h0 (assign_child (h @ [n]) parent ch (length h))"
  using differs_at_step differs_at_prefix by blast

lemma set_children_append:
  "cur < length h \<Longrightarrow> set_children (h @ [n]) cur m = set_children h cur m @ [n]"
  by (simp add: set_children_def list_update_append1 nth_append)

lemma good_except_reset:
  assumes "good_except h0 h cur"
  shows "good_except h0 (set_children h cur []) cur"
  unfolding good_except_def
proof (intro allI impI conjI)
  fix a assume a: "length h0 \<le> a \<and> a < length (set_children h cur [])"
  show "new_ok h0 (set_children h cur []) a"
  proof (cases "a = cur")
    case True
    then show ?thesis using a by (simp add: new_ok_def nth_set_children)
  next
    case False
    have "new_ok h0 h a" using assms a by (simp add: good_except_def)
    then show ?thesis by (rule new_ok_mono) (simp_all add: False nth_set_children)
  qed
  assume "a \<noteq> cur"
  then show "\<not> dead (set_children h cur [] ! a)"
    using assms a by (simp add: good_except_def nth_set_children)
qed

lemma put_empty_loop_good:
  "good_except h0 h cur \<Longrightarrow> length h0 \<le> cur \<Longrightarrow> cur < length h \<Longrightarrow> key \<noteq> [] \<Longrightarrow>
   good h0 (put_empty_loop h cur key v)"
proof (induction key arbitrary: h cur)
  case Nil
  then show ?case by simp
next
  case (Cons ch key)
  define n where "n = (if key \<noteq> [] then TrieNode_default else TrieNodeWithValue_leaf v)"
  define hr where "hr = set_children h cur []"
  define h3 where "h3 = assign_child (hr @ [n]) cur ch (length hr)"
  have step: "put_empty_loop h cur (ch # key) v = put_empty_loop h3 (length h) key v"
    using Cons.prems(3) by (simp add: h3_def hr_def n_def make_shared_def set_children_append)
  have gr: "good_except h0 hr cur" unfolding hr_def using Cons.prems(1) by (rule good_except_reset)
  have cur: "cur < length hr" using Cons.prems(3) by (simp add: hr_def)
  have cn: "\<forall>c b. map_find (children n) c = Some b \<longrightarrow> b < length h0 \<and> no_dead h0 b"
    by (simp add: n_def TrieNode_default_def TrieNodeWithValue_leaf_def)
  show ?case
  proof (cases "key = []")
    case True
    then have "\<not> dead n" by (simp add: n_def dead_def TrieNodeWithValue_leaf_def is_value_node_def)
    then have "good h0 h3" unfolding h3_def using gr Cons.prems(2) cur cn by (intro good_step)
    then show ?thesis using True step by simp
  next
    case False
    have "good_except h0 h3 (length hr)"
      unfolding h3_def using gr Cons.prems(2) cur cn by (rule good_except_step)
    then have "good h0 (put_empty_loop h3 (length h) key v)"
      using Cons.prems(2,3) False by (intro Cons.IH) (simp_all add: hr_def h3_def)
    then show ?thesis using step by simp
  qed
qed

lemma put_found_loop_good:
  assumes cl: "closed_heap h0" and nodes: "\<forall>n\<in>set nodes. n < length h0 \<and> no_dead h0 n"
  shows "good_except h0 h parent \<Longrightarrow> prefix h0 h \<Longrightarrow> length h0 \<le> parent \<Longrightarrow> parent < length h \<Longrightarrow>
    key \<noteq> [] \<Longrightarrow> put_found_loop h parent key nodes v = Some h' \<Longrightarrow> good h0 h'"
  using nodes
proof (induction h parent key nodes v rule: put_found_loop.induct)
  case (1 h parent nodes v)
  then show ?case by simp
next
  case (2 h parent ch key v)
  then show ?case by simp
next
  case (3 h parent ch key nd nodes v)
  define n where "n = (if key \<noteq> [] then Clone (h ! nd) else TrieNodeWithValue (children (h ! nd)) v)"
  define h2 where "h2 = assign_child (h @ [n]) parent ch (length h)"
  have step: "put_found_loop h parent (ch # key) (nd # nodes) v = put_found_loop h2 (length h) key nodes v"
    by (simp add: h2_def n_def make_shared_def)
  have nd: "nd < length h0" "no_dead h0 nd" using "3.prems"(7) by simp_all
  have cn: "\<forall>c b. map_find (children n) c = Some b \<longrightarrow> b < length h0 \<and> no_dead h0 b"
    using clone_children_ok [OF cl "3.prems"(2) nd] by (simp add: n_def Clone_def TrieNodeWithValue_def)
  have live: "\<not> dead n"
    using clone_not_dead [OF "3.prems"(2) nd]
    by (simp add: n_def Clone_def TrieNodeWithValue_def dead_def is_value_node_def)
  show ?case
  proof (cases "key = []")
    case True
    have "good h0 h2"
      unfolding h2_def using "3.prems"(1,3,4) cn live by (rule good_step)
    then show ?thesis using "3.prems"(6) True step by simp
  next
    case False
    have g2: "good_except h0 h2 (length h)"
      unfolding h2_def using "3.prems"(1,3,4) cn by (rule good_except_step)
    have p2: "prefix h0 h2"
      unfolding h2_def using "3.prems"(2,3) by (rule step_prefix)
    have l: "length h0 \<le> length h" using "3.prems"(2) by (rule prefix_length_le)
    have r: "put_found_loop h2 (length h) key nodes v = Some h'"
      using "3.prems"(6) step by simp
    show ?thesis
      using "3.IH" [of "(h @ [n], length h)" "h @ [n]" "length h" h2] g2 p2 l r False "3.prems"(7)
      by (simp add: make_shared_def n_def h2_def)
  qed
qed

lemma put_prefix_loop_good:
  assumes cl: "closed_heap h0" and nodes: "\<forall>n\<in>set nodes. n < length h0 \<and> no_dead h0 n"
  shows "good_except h0 h parent \<Longrightarrow> prefix h0 h \<Longrightarrow> length h0 \<le> parent \<Longrightarrow> parent < length h \<Longrightarrow>
    put_prefix_loop h parent key nodes index = Some (h', p', idx') \<Longrightarrow>
    good_except h0 h' p' \<and> prefix h0 h' \<and> length h0 \<le> p' \<and> p' < length h'"
  using nodes
proof (induction h parent key nodes index rule: put_prefix_loop.induct)
  case (1 h parent key index)
  then show ?case by simp
next
  case (2 h parent nd nodes index)
  then show ?case by simp
next
  case (3 h parent ch key nd nodes index)
  define n where "n = Clone (h ! nd)"
  define h2 where "h2 = assign_child (h @ [n]) parent ch (length h)"
  have r: "put_prefix_loop h2 (length h) key nodes (to_int32 (index + 1)) = Some (h', p', idx')"
    using "3.prems"(5) by (simp add: h2_def n_def make_shared_def)
  have nd: "nd < length h0" "no_dead h0 nd" using "3.prems"(6) by simp_all
  have cn: "\<forall>c b. map_find (children n) c = Some b \<longrightarrow> b < length h0 \<and> no_dead h0 b"
    using clone_children_ok [OF cl "3.prems"(2) nd] by (simp add: n_def Clone_def)
  have g2: "good_except h0 h2 (length h)"
    unfolding h2_def using "3.prems"(1,3,4) cn by (rule good_except_step)
  have p2: "prefix h0 h2"
    unfolding h2_def using "3.prems"(2,3) by (rule step_prefix)
  have l: "length h0 \<le> length h" using "3.prems"(2) by (rule prefix_length_le)
  show ?case
    using "3.IH" [of "(h @ [n], length h)" "h @ [n]" "length h" h2] g2 p2 l r "3.prems"(6)
    by (simp add: make_shared_def n_def h2_def)
qed

lemma put_fresh_loop_good:
  "good_except h0 h parent \<Longrightarrow> prefix h0 h \<Longrightarrow> length h0 \<le> parent \<Longrightarrow> parent < length h \<Longrightarrow>
    put_fresh_loop h parent key index = Some (h', p') \<Longrightarrow>
    good_except h0 h' p' \<and> prefix h0 h' \<and> length h0 \<le> p' \<and> p' < length h'"
proof (induction h parent key index rule: put_fresh_loop.induct)
  case (1 h parent key index)
  show ?case
  proof (cases "index < to_int32 (static_cast_int (length key) - 1)")
    case False
    then have "h' = h" "p' = parent" using "1.prems"(5)
      by (subst (asm) put_fresh_loop.simps; simp)+
    then show ?thesis using "1.prems" by simp
  next
    case True
    then obtain ch where at: "at_index key index = Some ch"
      using "1.prems"(5) by (subst (asm) put_fresh_loop.simps) (auto split: option.splits)
    define h2 where "h2 = assign_child (h @ [TrieNode_default]) parent ch (length h)"
    have r: "put_fresh_loop h2 (length h) key (to_int32 (index + 1)) = Some (h', p')"
      using "1.prems"(5) True at
      by (subst (asm) put_fresh_loop.simps) (simp add: h2_def make_shared_def)
    have cn: "\<forall>c b. map_find (children TrieNode_default) c = Some b \<longrightarrow> b < length h0 \<and> no_dead h0 b"
      by (simp add: TrieNode_default_def)
    have g2: "good_except h0 h2 (length h)"
      unfolding h2_def using "1.prems"(1,3,4) cn by (rule good_except_step)
    have p2: "prefix h0 h2"
      unfolding h2_def using "1.prems"(2,3) by (rule step_prefix)
    have l: "length h0 \<le> length h" using "1.prems"(2) by (rule prefix_length_le)
    show ?thesis
      using "1.IH" [OF True at, of "(h @ [TrieNode_default], length h)" "h @ [TrieNode_default]" "length h" h2]
        g2 p2 l r
      by (simp add: h2_def make_shared_def)
  qed
qed

lemma minimal_root: "minimal h t \<Longrightarrow> root t = Some r \<Longrightarrow> no_dead h r"
  by (simp add: minimal_def)

text \<open>\<open>Put\<close> keeps the trie free of dead nodes, for every key.\<close>

lemma Put_minimal:
  assumes wf: "wf_trie h t" and mi: "minimal h t" and put: "Put h t key v = Some (h', t')"
  shows "minimal h' t'"
proof -
  have cl: "closed_heap h" using wf by (rule wf_trie_closed)
  have fr: "prefix h h'" using Put_frame [OF put] by blast
  have "good h h' \<and> root t' = Some (length h) \<and> length h < length h'"
  proof (cases "key = []")
    case True
    define n where "n = TrieNodeWithValue (case root t of None \<Rightarrow> [] | Some r \<Rightarrow> children (h ! r)) v"
    have "\<forall>c b. map_find (children n) c = Some b \<longrightarrow> b < length h \<and> no_dead h b"
    proof (cases "root t")
      case None
      then show ?thesis by (simp add: n_def TrieNodeWithValue_def)
    next
      case (Some r)
      then show ?thesis
        using old_children_ok [OF cl wf_trie_root [OF wf Some] minimal_root [OF mi Some]]
        by (simp add: n_def TrieNodeWithValue_def)
    qed
    moreover have "\<not> dead n" by (simp add: n_def TrieNodeWithValue_def dead_def is_value_node_def)
    ultimately have "good h (h @ [n])" by (rule good_append)
    then show ?thesis using put True by (auto simp: Put_empty_key n_def)
  next
    case ne: False
    show ?thesis
    proof (cases "root t")
      case None
      have "good_except h (h @ [TrieNode_default]) (length h)"
        by (rule good_except_append) (simp add: TrieNode_default_def)
      then have "good h (put_empty_loop (h @ [TrieNode_default]) (length h) key v)"
        using ne by (intro put_empty_loop_good) simp_all
      moreover have "length h < length (put_empty_loop (h @ [TrieNode_default]) (length h) key v)"
        using put_empty_loop_frame [of "length h" "h @ [TrieNode_default]" key v]
        by (auto simp: differs_at_def)
      ultimately show ?thesis using put ne None by (auto simp: Put_empty_trie)
    next
      case (Some r)
      have r: "r < length h" using wf Some by (rule wf_trie_root)
      have ndr: "no_dead h r" using mi Some by (rule minimal_root)
      obtain nodes rest where pw: "put_walk h r key [] = (nodes, rest)"
        by (cases "put_walk h r key []")
      obtain pre where path: "on_path h r pre nodes"
        using put_walk_spec [OF pw] by auto
      have nodes: "\<forall>n\<in>set nodes. n < length h \<and> no_dead h n"
        using on_path_range [OF cl r path] on_path_no_dead [OF ndr path] by blast
      define h1 where "h1 = h @ [Clone (h ! r)]"
      have g1: "good_except h h1 (length h)"
        unfolding h1_def using old_children_ok [OF cl r ndr]
        by (intro good_except_append) (simp add: Clone_def)
      have p1: "prefix h h1" by (simp add: h1_def)
      have l1: "length h < length h1" by (simp add: h1_def)
      show ?thesis
      proof (cases "rest = []")
        case True
        then obtain h2 where l: "put_found_loop h1 (length h) key nodes v = Some h2"
          and res: "h' = h2" "t' = \<lparr>root = Some (length h)\<rparr>"
          using put by (auto simp: Put_some_root [OF ne Some pw] h1_def split: option.splits)
        have "good h h2"
          using put_found_loop_good [OF cl nodes g1 p1 _ l1 ne l] by simp
        moreover have "length h < length h2"
          using put_found_loop_frame [OF l] l1 by (auto simp: differs_at_def)
        ultimately show ?thesis using res by simp
      next
        case False
        then obtain h2 parent index h3 parent' where
          la: "put_prefix_loop h1 (length h) key nodes 0 = Some (h2, parent, index)"
          and lb: "put_fresh_loop h2 parent key index = Some (h3, parent')"
          and res: "h' = assign_child (h3 @ [TrieNodeWithValue_leaf v]) parent' (last key) (length h3)"
            "t' = \<lparr>root = Some (length h)\<rparr>"
          using put by (auto simp: Put_some_root [OF ne Some pw] h1_def split: option.splits)
        have a: "good_except h h2 parent" "prefix h h2" "length h \<le> parent" "parent < length h2"
          using put_prefix_loop_good [OF cl nodes g1 p1 _ l1 la] by simp_all
        have b: "good_except h h3 parent'" "prefix h h3" "length h \<le> parent'" "parent' < length h3"
          using put_fresh_loop_good [OF a lb] by simp_all
        have "good h h'"
          unfolding res using b(1,3,4)
          by (rule good_step) (simp_all add: TrieNodeWithValue_leaf_def dead_def is_value_node_def)
        moreover have "length h < length h'"
          using b(3,4) by (simp add: res)
        ultimately show ?thesis using res by simp
      qed
    qed
  qed
  then have "no_dead h' (length h)" "root t' = Some (length h)"
    using good_no_dead [OF cl fr] by auto
  then show ?thesis by (simp add: minimal_def)
qed

text \<open>The loop of \<open>Remove\<close> keeps every node below the node it has just built free of
  dead nodes, whatever index it starts from.\<close>

lemma remove_loop_children_ok:
  assumes cl0: "closed_heap h0" and nodes: "\<forall>n\<in>set nodes. n < length h0 \<and> no_dead h0 n"
  shows "nat (i + 1) = n \<Longrightarrow> closed_heap h \<Longrightarrow> prefix h0 h \<Longrightarrow> cur < length h \<Longrightarrow>
    children_ok h cur \<Longrightarrow> remove_loop h key nodes cur i = Some (h', cur') \<Longrightarrow>
    children_ok h' cur'"
proof (induction n arbitrary: i h cur rule: less_induct)
  case (less n)
  show ?case
  proof (cases "i < 0")
    case True
    then show ?thesis using less.prems by (simp add: remove_loop_exit)
  next
    case False
    then have i0: "0 \<le> i" by simp
    obtain ch where atk: "at_index key i = Some ch"
      using less.prems(6) i0 by (subst (asm) remove_loop.simps) (auto split: option.splits)
    obtain nd where atn: "at_index nodes i = Some nd"
      using less.prems(6) i0 atk by (subst (asm) remove_loop.simps) (auto split: option.splits)
    have "nd \<in> set nodes" using atn by (auto simp: at_index_def split: if_splits)
    then have nd: "nd < length h0" "no_dead h0 nd" using nodes by auto
    have hnd: "h ! nd = h0 ! nd" using less.prems(3) nd(1) prefix_nth by blast
    have nd_lt: "nd < length h" using nd(1) less.prems(3) prefix_length_le by fastforce
    define isdead where "isdead = (map_is_empty (children (h ! cur)) \<and> \<not> is_value_node (h ! cur))"
    define h2 where "h2 = (if isdead then erase_child (h @ [Clone (h ! nd)]) (length h) ch
        else assign_child (h @ [Clone (h ! nd)]) (length h) ch cur)"
    have step: "remove_loop h key nodes cur i = remove_loop h2 key nodes (length h) (to_int32 (i - 1))"
      using remove_loop_unfold [OF less.prems(4) i0 atk atn] by (simp add: h2_def isdead_def)
    have c2: "closed_heap h2"
      using remove_step_closed [OF less.prems(2) nd_lt less.prems(4)] by (simp add: h2_def)
    have p2: "prefix h h2"
      using remove_step_prefix by (simp add: h2_def)
    have p02: "prefix h0 h2" using less.prems(3) p2 by (rule prefix_order.trans)
    have len2: "length h2 = Suc (length h)" by (simp add: h2_def)
    have new2: "h2 ! length h = (h0 ! nd)\<lparr>children :=
        (if isdead then AList.delete ch (children (h0 ! nd)) else AList.update ch cur (children (h0 ! nd)))\<rparr>"
      by (simp add: h2_def nth_erase_child nth_assign_child Clone_def hnd)
    have ok2: "children_ok h2 (length h)"
      unfolding children_ok_def
    proof (intro allI impI)
      fix c b assume cb: "map_find (children (h2 ! length h)) c = Some b"
      show "no_dead h2 b"
      proof (cases "\<not> isdead \<and> c = ch")
        case True
        then have "b = cur" using cb new2 by (simp add: map_find_update)
        moreover have "\<not> dead (h ! cur)" using True by (simp add: dead_def isdead_def)
        then have "no_dead h cur" using less.prems(5) no_dead_unfold by blast
        then have "no_dead h2 cur" using no_dead_ext [OF less.prems(2) p2 less.prems(4)] by blast
        ultimately show ?thesis by simp
      next
        case False
        then have "map_find (children (h0 ! nd)) c = Some b"
          using cb new2 by (auto simp: map_find_update map_find_delete split: if_splits)
        then have "b < length h0" "no_dead h0 b"
          using old_children_ok [OF cl0 nd] by blast+
        then show ?thesis using no_dead_ext [OF cl0 p02] by blast
      qed
    qed
    have lt: "to_int32 (i - 1) < i" using i0 by (rule to_int32_pred_less)
    have ge: "- 2147483648 \<le> to_int32 (i - 1)" using to_int32_range by blast
    have dec: "nat (to_int32 (i - 1) + 1) < n" using lt i0 less.prems(1) by linarith
    have r: "remove_loop h2 key nodes (length h) (to_int32 (i - 1)) = Some (h', cur')"
      using less.prems(6) step by simp
    show ?thesis
      using less.IH [OF dec refl c2 p02 _ ok2 r] len2 by simp
  qed
qed

text \<open>\<open>Remove\<close> keeps the trie free of dead nodes, for every key.\<close>

lemma Remove_minimal:
  assumes wf: "wf_trie h t" and mi: "minimal h t" and rm: "Remove h t key = Some (h', t')"
  shows "minimal h' t'"
proof (cases rule: Remove_cases [of h t key])
  case unchanged
  then show ?thesis using mi rm by simp
next
  case (removed r nodes cur)
  have cl: "closed_heap h" using wf by (rule wf_trie_closed)
  have r: "r < length h" using wf removed(1) by (rule wf_trie_root)
  have ndr: "no_dead h r" using mi removed(1) by (rule minimal_root)
  obtain ns where ns: "nodes = [] @ ns" "length ns = length key" "get_walk h r key = Some cur"
    "\<forall>j<length key. get_walk h r (take j key) = Some (ns ! j)"
    using remove_walk_spec [OF removed(2)] by blast
  have rng: "\<forall>n\<in>set nodes. n < length h" "cur < length h"
    using remove_walk_nodes_range [OF cl r removed(2)] by blast+
  have "no_dead h n" if n: "n \<in> set nodes" for n
  proof -
    obtain j where "j < length nodes" "nodes ! j = n" using n by (auto simp: in_set_conv_nth)
    then have "get_walk h r (take j key) = Some n" using ns by simp
    then show ?thesis using ndr no_dead_walk by blast
  qed
  then have nodes: "\<forall>n\<in>set nodes. n < length h \<and> no_dead h n" using rng(1) by blast
  have ndc: "no_dead h cur" using ndr ns(3) by (rule no_dead_walk)
  define h1 where "h1 = h @ [TrieNode_of (children (h ! cur))]"
  define i where "i = to_int32 (static_cast_int (length nodes) - 1)"
  have c1: "closed_heap h1"
    unfolding h1_def using cl rng(2)
    by (intro closed_heap_append) (auto simp: TrieNode_of_def dest: closed_heap_children_old)
  have p1: "prefix h h1" by (simp add: h1_def)
  have ok1: "children_ok h1 (length h)"
    unfolding children_ok_def
  proof (intro allI impI)
    fix c b assume "map_find (children (h1 ! length h)) c = Some b"
    then have "map_find (children (h ! cur)) c = Some b" by (simp add: h1_def TrieNode_of_def)
    then have "b < length h" "no_dead h b" using old_children_ok [OF cl rng(2) ndc] by blast+
    then show "no_dead h1 b" using no_dead_ext [OF cl p1] by blast
  qed
  obtain h2 cur2 where res: "remove_loop h1 key nodes (length h) i = Some (h2, cur2)"
    and out: "h' = h2"
      "t' = (if map_is_empty (children (h2 ! cur2)) \<and> \<not> is_value_node (h2 ! cur2)
             then \<lparr>root = None\<rparr> else \<lparr>root = Some cur2\<rparr>)"
    using rm by (auto simp: Remove_value [OF removed] h1_def i_def split: option.splits if_splits)
  have ok2: "children_ok h2 cur2"
    using remove_loop_children_ok [OF cl nodes refl c1 p1 _ ok1 res] by (simp add: h1_def)
  show ?thesis
  proof (cases "map_is_empty (children (h2 ! cur2)) \<and> \<not> is_value_node (h2 ! cur2)")
    case True
    then show ?thesis using out by (simp add: minimal_def)
  next
    case False
    then have "\<not> dead (h2 ! cur2)" by (simp add: dead_def)
    then have "no_dead h2 cur2" using ok2 no_dead_unfold by blast
    then show ?thesis using False out by (simp add: minimal_def)
  qed
qed

lemma run_ops_snoc:
  "run_ops s (xs @ [x]) = (case run_ops s xs of None \<Rightarrow> None | Some s' \<Rightarrow> apply_op s' x)"
  by (induction xs arbitrary: s) (auto split: option.splits)

lemma giant_key_length: "length giant_key = 2147483649"
  by (simp add: giant_key_def)

lemma giant_key_Cons: "giant_key = CHR ''a'' # CHR ''a'' # replicate 2147483647 (CHR ''a'')"
proof -
  have "(2147483649::nat) = Suc (Suc 2147483647)" by simp
  then show ?thesis unfolding giant_key_def by (simp only: replicate.simps)
qed

lemma giant_key_last: "last giant_key = CHR ''a''"
  by (simp add: giant_key_def)

lemma giant_key_bound: "to_int32 (static_cast_int (length giant_key) - 1) = - 2147483648"
  by (simp add: giant_key_length static_cast_int_def to_int32_def)

lemma wf_trie_empty: "wf_trie [] \<lparr>root = None\<rparr>"
  by (simp add: wf_trie_def closed_heap_def)

lemma minimal_empty: "minimal h \<lparr>root = None\<rparr>"
  by (simp add: minimal_def)

lemma Get_eq_contents:
  "contents h t = contents h' t' \<Longrightarrow> Get h t T key = Get h' t' T key"
  by (simp add: Get_contents)

lemma contents_None_iff: "contents h t key = None \<longleftrightarrow> (\<forall>T. Get h t T key = None)"
proof
  assume "contents h t key = None"
  then show "\<forall>T. Get h t T key = None" by (simp add: Get_contents)
next
  assume a: "\<forall>T. Get h t T key = None"
  show "contents h t key = None"
  proof (cases "contents h t key")
    case None
    then show ?thesis .
  next
    case (Some v)
    then have "Get h t (type_of v) key = Some v" by (simp add: Get_contents)
    then show ?thesis using a by simp
  qed
qed

text \<open>Sequences of operations keep the trie well-formed and free of dead nodes.\<close>

lemma apply_op_invariant:
  assumes "wf_trie h t \<and> minimal h t" and "apply_op (h, t) x = Some (h', t')"
  shows "wf_trie h' t' \<and> minimal h' t'"
proof (cases x)
  case (Put_op key v)
  then show ?thesis using assms Put_wf Put_minimal by auto
next
  case (Remove_op key)
  then have rm: "Remove h t key = Some (h', t')" using assms(2) by simp
  then have "wf_trie h' t'" using Remove_frame [of h t key] assms(1) by auto
  then show ?thesis using assms(1) rm Remove_minimal by blast
qed

lemma run_ops_invariant:
  "wf_trie h t \<and> minimal h t \<Longrightarrow> run_ops (h, t) ops = Some (h', t') \<Longrightarrow>
   wf_trie h' t' \<and> minimal h' t'"
proof (induction ops arbitrary: h t)
  case Nil
  then show ?case by simp
next
  case (Cons x ops)
  then obtain h1 t1 where s: "apply_op (h, t) x = Some (h1, t1)" "run_ops (h1, t1) ops = Some (h', t')"
    by (auto split: option.splits)
  have "wf_trie h1 t1 \<and> minimal h1 t1" using Cons.prems(1) s(1) by (rule apply_op_invariant)
  then show ?case using Cons.IH s(2) by blast
qed

text \<open>The key of \<open>2\<^sup>3\<^sup>1 + 1\<close> bytes: line 114 does not enter the loop that makes
  the fresh nodes, and line 147 does not enter the loop that rebuilds the path.\<close>

lemma giant_key_not_Nil: "giant_key \<noteq> []"
  by (simp add: giant_key_Cons)

lemma put_fresh_loop_giant_key:
  "0 \<le> index \<Longrightarrow> put_fresh_loop h parent giant_key index = Some (h, parent)"
  by (subst put_fresh_loop.simps) (simp add: giant_key_bound)

lemma Remove_giant_key:
  assumes "wf_trie h t" and "contents h t giant_key = Some v"
  shows "\<exists>h' t'. Remove h t giant_key = Some (h', t') \<and> (\<forall>T. Get h' t' T [] = None)"
proof (cases rule: Remove_cases [of h t giant_key])
  case unchanged
  then have "contents h t giant_key = None"
    by (auto simp: contents_def lookup_def is_value_node_def)
  then show ?thesis using assms(2) by simp
next
  case (removed r nodes cur)
  have cl: "closed_heap h" using assms(1) by (rule wf_trie_closed)
  have r: "r < length h" using assms(1) removed(1) by (rule wf_trie_root)
  have len: "length nodes = length giant_key"
    using remove_walk_nodes_range [OF cl r removed(2)] by blast
  define h1 where "h1 = h @ [TrieNode_of (children (h ! cur))]"
  have start: "to_int32 (static_cast_int (length nodes) - 1) = - 2147483648"
    unfolding len by (rule giant_key_bound)
  have loop: "remove_loop h1 giant_key nodes (length h) (- 2147483648) = Some (h1, length h)"
    by (rule remove_loop_exit) simp
  have new: "h1 ! length h = TrieNode_of (children (h ! cur))" by (simp add: h1_def)
  have "Remove h t giant_key =
      (if map_is_empty (children (h1 ! length h)) \<and> \<not> is_value_node (h1 ! length h)
       then Some (h1, \<lparr>root = None\<rparr>) else Some (h1, \<lparr>root = Some (length h)\<rparr>))"
    unfolding Remove_value [OF removed] h1_def [symmetric] start loop by simp
  then have rm: "Remove h t giant_key =
      (if map_is_empty (children (h ! cur)) then Some (h1, \<lparr>root = None\<rparr>)
       else Some (h1, \<lparr>root = Some (length h)\<rparr>))"
    by (simp add: new TrieNode_of_def is_value_node_def)
  have "Get h1 \<lparr>root = None\<rparr> T [] = None" for T by (simp add: Get_def)
  moreover have "Get h1 \<lparr>root = Some (length h)\<rparr> T [] = None" for T
    by (simp add: Get_def new TrieNode_of_def is_value_node_def)
  ultimately show ?thesis using rm by simp
qed

text \<open>For keys shorter than \<open>2\<^sup>3\<^sup>1\<close> bytes, \<open>Remove\<close> returns a trie without the key on
  which every other key has the value it had, and two \<open>Put\<close>s of distinct keys give the
  same values in either order.\<close>

lemma Remove_exact_bounded:
  assumes "wf_trie h t" and "length k < 2147483648"
  shows "\<exists>h' t'. Remove h t k = Some (h', t') \<and> Get h' t' T k = None \<and>
           (\<forall>k'. k' \<noteq> k \<longrightarrow> Get h' t' T k' = Get h t T k')"
proof -
  obtain h' t' where "Remove h t k = Some (h', t')"
    "contents h' t' = (contents h t)(k := None)"
    using Remove_contents [OF assms] by blast
  then show ?thesis by (auto simp: Get_contents)
qed

lemma Put_commute_bounded:
  assumes "wf_trie h t" and "k1 \<noteq> k2" and "length k1 < 2147483648" and "length k2 < 2147483648"
  shows "\<exists>h1 t1 h2 t2 h3 t3 h4 t4.
           Put h t k1 v1 = Some (h1, t1) \<and> Put h1 t1 k2 v2 = Some (h2, t2) \<and>
           Put h t k2 v2 = Some (h3, t3) \<and> Put h3 t3 k1 v1 = Some (h4, t4) \<and>
           (\<forall>T k. Get h2 t2 T k = Get h4 t4 T k)"
proof -
  obtain h1 t1 where p1: "Put h t k1 v1 = Some (h1, t1)"
    and c1: "contents h1 t1 = (contents h t)(k1 \<mapsto> v1)"
    using Put_contents [of h t k1 v1] assms(1,3) by blast
  have wf1: "wf_trie h1 t1" using assms(1) p1 by (rule Put_wf)
  obtain h2 t2 where p2: "Put h1 t1 k2 v2 = Some (h2, t2)"
    and c2: "contents h2 t2 = (contents h1 t1)(k2 \<mapsto> v2)"
    using Put_contents [of h1 t1 k2 v2] wf1 assms(4) by blast
  obtain h3 t3 where p3: "Put h t k2 v2 = Some (h3, t3)"
    and c3: "contents h3 t3 = (contents h t)(k2 \<mapsto> v2)"
    using Put_contents [of h t k2 v2] assms(1,4) by blast
  have wf3: "wf_trie h3 t3" using assms(1) p3 by (rule Put_wf)
  obtain h4 t4 where p4: "Put h3 t3 k1 v1 = Some (h4, t4)"
    and c4: "contents h4 t4 = (contents h3 t3)(k1 \<mapsto> v1)"
    using Put_contents [of h3 t3 k1 v1] wf3 assms(3) by blast
  have "contents h2 t2 = contents h4 t4"
    using c1 c2 c3 c4 assms(2) by (auto simp: fun_eq_iff)
  then have "\<forall>T k. Get h2 t2 T k = Get h4 t4 T k"
    using Get_eq_contents by blast
  then show ?thesis using p1 p2 p3 p4 by blast
qed

section \<open>The claims\<close>

text \<open>
  C1.  Old versions persist.  In a well-formed store, whatever \<open>Put\<close> and \<open>Remove\<close>
  return, every \<open>Get\<close> on the trie they were called on returns in the new store what it
  returned before.  \<open>Remove\<close> always returns, and \<open>Put\<close> returns for every key shorter
  than \<open>2\<^sup>3\<^sup>1\<close> bytes.
\<close>

theorem old_trie_unchanged:
  assumes "wf_trie h t"
  shows "(\<forall>h' t'. Put h t k v = Some (h', t') \<longrightarrow> Get h' t T k' = Get h t T k')
       \<and> (\<exists>h' t'. Remove h t k = Some (h', t') \<and> Get h' t T k' = Get h t T k')
       \<and> (length k < 2147483648 \<longrightarrow> (\<exists>h' t'. Put h t k v = Some (h', t')))"
proof (intro conjI allI impI)
  fix h' t'
  assume "Put h t k v = Some (h', t')"
  then have "prefix h h'" using Put_frame by blast
  then show "Get h' t T k' = Get h t T k'" using assms Get_ext by blast
next
  obtain h' t' where "Remove h t k = Some (h', t')" "prefix h h'"
    using Remove_frame [OF assms] by blast
  then show "\<exists>h' t'. Remove h t k = Some (h', t') \<and> Get h' t T k' = Get h t T k'"
    using assms Get_ext by blast
next
  assume "length k < 2147483648"
  then show "\<exists>h' t'. Put h t k v = Some (h', t')"
    using Put_contents [OF assms, of k v] by blast
qed

theorem old_trie_unchanged_witness:
  "wf_trie [\<lparr>children = [(CHR ''a'', 1)], node_value = None\<rparr>,
            \<lparr>children = [], node_value = Some (V_uint32 1)\<rparr>] \<lparr>root = Some 0\<rparr>
   \<and> (\<exists>h' t'. Put [\<lparr>children = [(CHR ''a'', 1)], node_value = None\<rparr>,
                    \<lparr>children = [], node_value = Some (V_uint32 1)\<rparr>] \<lparr>root = Some 0\<rparr>
                 ''a'' (V_uint32 2) = Some (h', t')
         \<and> Get h' t' T_uint32 ''a'' = Some (V_uint32 2)
         \<and> Get h' \<lparr>root = Some 0\<rparr> T_uint32 ''a'' = Some (V_uint32 1))
   \<and> (\<exists>h' t'. Remove [\<lparr>children = [(CHR ''a'', 1)], node_value = None\<rparr>,
                    \<lparr>children = [], node_value = Some (V_uint32 1)\<rparr>] \<lparr>root = Some 0\<rparr>
                 ''a'' = Some (h', t')
         \<and> Get h' t' T_uint32 ''a'' = None
         \<and> Get h' \<lparr>root = Some 0\<rparr> T_uint32 ''a'' = Some (V_uint32 1))"
proof -
  define H where "H = [\<lparr>children = [(CHR ''a'', 1)], node_value = None\<rparr>,
            \<lparr>children = [], node_value = Some (V_uint32 1)\<rparr>]"
  define HP where "HP = [\<lparr>children = [(CHR ''a'', 1)], node_value = None\<rparr>,
            \<lparr>children = [], node_value = Some (V_uint32 1)\<rparr>,
            \<lparr>children = [(CHR ''a'', 3)], node_value = None\<rparr>,
            \<lparr>children = [], node_value = Some (V_uint32 2)\<rparr>]"
  define HR where "HR = [\<lparr>children = [(CHR ''a'', 1)], node_value = None\<rparr>,
            \<lparr>children = [], node_value = Some (V_uint32 1)\<rparr>,
            \<lparr>children = [], node_value = None\<rparr>,
            \<lparr>children = [], node_value = None\<rparr>]"
  define T where "T = \<lparr>root = Some 0\<rparr>"
  have wf: "wf_trie H T" unfolding H_def T_def by code_simp
  have g: "Get H T T_uint32 ''a'' = Some (V_uint32 1)" unfolding H_def T_def by code_simp
  have p: "Put H T ''a'' (V_uint32 2) = Some (HP, \<lparr>root = Some 2\<rparr>)"
    unfolding H_def HP_def T_def by code_simp
  have gp: "Get HP \<lparr>root = Some 2\<rparr> T_uint32 ''a'' = Some (V_uint32 2)"
    unfolding HP_def by code_simp
  have r: "Remove H T ''a'' = Some (HR, \<lparr>root = None\<rparr>)"
    unfolding H_def HR_def T_def by code_simp
  have gr: "Get HR \<lparr>root = None\<rparr> T_uint32 ''a'' = None"
    unfolding HR_def by code_simp
  note inst = old_trie_unchanged [OF wf, where k = "''a''" and v = "V_uint32 2" and T = T_uint32
      and k' = "''a''"]
  have kp: "Get HP T T_uint32 ''a'' = Some (V_uint32 1)"
    using inst p g by auto
  have kr: "Get HR T T_uint32 ''a'' = Some (V_uint32 1)"
    using inst r g by auto
  have "wf_trie H T
     \<and> (Put H T ''a'' (V_uint32 2) = Some (HP, \<lparr>root = Some 2\<rparr>)
         \<and> Get HP \<lparr>root = Some 2\<rparr> T_uint32 ''a'' = Some (V_uint32 2)
         \<and> Get HP T T_uint32 ''a'' = Some (V_uint32 1))
     \<and> (Remove H T ''a'' = Some (HR, \<lparr>root = None\<rparr>)
         \<and> Get HR \<lparr>root = None\<rparr> T_uint32 ''a'' = None
         \<and> Get HR T T_uint32 ''a'' = Some (V_uint32 1))"
    using wf p gp kp r gr kr by simp
  then show ?thesis unfolding H_def T_def by blast
qed

text \<open>
  C2.  Get after Put on the empty trie: for every key, the empty key and keys of any
  length included, and every value, \<open>Put\<close> on the empty trie returns a trie on which
  \<open>Get\<close> at the type of the value returns the value.
\<close>

theorem Get_after_Put_on_empty:
  "\<exists>h' t'. Put h \<lparr>root = None\<rparr> key v = Some (h', t') \<and> Get h' t' (type_of v) key = Some v"
proof (cases "key = []")
  case True
  then show ?thesis
    by (simp add: Put_empty_key Get_contents contents_def TrieNodeWithValue_def)
next
  case False
  define h1 where "h1 = h @ [TrieNode_default]"
  have "lookup (put_empty_loop h1 (length h) key v) (length h) key = Some v"
    using False put_empty_loop_lookup [of "length h" h1 key v key]
    by (simp add: h1_def TrieNode_default_def)
  then show ?thesis
    using False by (simp add: Put_empty_trie Get_contents contents_def h1_def)
qed

theorem Get_after_Put_on_empty_witness:
  "Get_after [Put_op ''abc'' (V_string ''x'')] T_string ''abc'' = Some (Some (V_string ''x''))
   \<and> Get_after [Put_op [] (V_uint64 5)] T_uint64 [] = Some (Some (V_uint64 5))"
  using Get_after_Put_on_empty [of "[]" "''abc''" "V_string ''x''"]
    Get_after_Put_on_empty [of "[]" "[]" "V_uint64 5"]
  by (auto simp: Get_after_def)

text \<open>
  C3.  \<open>Remove\<close> is exact.  The code fails the claim for a key of \<open>2\<^sup>3\<^sup>1 + 1\<close> bytes:
  line 147 turns the number of nodes on the path into an \<^verbatim>\<open>int\<close>, here a negative one,
  the loop that rebuilds the path is not entered, and the trie returned is the node under
  the key alone, or no node.  From the empty trie, after \<open>Put\<close> of the long key and
  \<open>Put("", 7)\<close>, \<open>Get\<close> finds both values; after \<open>Remove\<close> of the long key, \<open>Get("")\<close>
  finds nothing.  The instance of the specification holds.
\<close>

theorem Remove_giant_key_drops_other_key:
  "Get_after [Put_op giant_key (V_uint32 1), Put_op [] (V_uint32 7)] T_uint32 giant_key
     = Some (Some (V_uint32 1))
   \<and> Get_after [Put_op giant_key (V_uint32 1), Put_op [] (V_uint32 7)] T_uint32 []
     = Some (Some (V_uint32 7))
   \<and> Get_after [Put_op giant_key (V_uint32 1), Put_op [] (V_uint32 7), Remove_op giant_key]
       T_uint32 [] = Some None
   \<and> Get_after [Put_op ''a'' (V_uint32 1), Put_op ''ab'' (V_uint32 2), Remove_op ''a'']
       T_uint32 ''a'' = Some None
   \<and> Get_after [Put_op ''a'' (V_uint32 1), Put_op ''ab'' (V_uint32 2), Remove_op ''a'']
       T_uint32 ''ab'' = Some (Some (V_uint32 2))"
proof -
  obtain h1 t1 where p1: "Put [] \<lparr>root = None\<rparr> giant_key (V_uint32 1) = Some (h1, t1)"
    and c1: "contents h1 t1 = (contents [] \<lparr>root = None\<rparr>)(giant_key \<mapsto> V_uint32 1)"
    using Put_contents [of "[]" "\<lparr>root = None\<rparr>" giant_key "V_uint32 1"] wf_trie_empty
    by auto
  have wf1: "wf_trie h1 t1" using wf_trie_empty p1 by (rule Put_wf)
  obtain h2 t2 where p2: "Put h1 t1 [] (V_uint32 7) = Some (h2, t2)"
    and c2: "contents h2 t2 = (contents h1 t1)([] \<mapsto> V_uint32 7)"
    using Put_contents [of h1 t1 "[]" "V_uint32 7"] wf1 by auto
  have wf2: "wf_trie h2 t2" using wf1 p2 by (rule Put_wf)
  have g: "contents h2 t2 giant_key = Some (V_uint32 1)"
    using c1 c2 giant_key_not_Nil by simp
  have e: "contents h2 t2 [] = Some (V_uint32 7)"
    using c2 by simp
  obtain h3 t3 where r3: "Remove h2 t2 giant_key = Some (h3, t3)"
    and n3: "\<forall>T. Get h3 t3 T [] = None"
    using Remove_giant_key [OF wf2 g] by blast
  have run2: "run_ops ([], \<lparr>root = None\<rparr>) [Put_op giant_key (V_uint32 1), Put_op [] (V_uint32 7)]
      = Some (h2, t2)"
    using p1 p2 by simp
  have run3: "run_ops ([], \<lparr>root = None\<rparr>)
      [Put_op giant_key (V_uint32 1), Put_op [] (V_uint32 7), Remove_op giant_key] = Some (h3, t3)"
    using p1 p2 r3 by simp
  have 1: "Get_after [Put_op giant_key (V_uint32 1), Put_op [] (V_uint32 7)] T_uint32 giant_key
     = Some (Some (V_uint32 1))"
    unfolding Get_after_def run2 using g by (simp add: Get_contents)
  have 2: "Get_after [Put_op giant_key (V_uint32 1), Put_op [] (V_uint32 7)] T_uint32 []
     = Some (Some (V_uint32 7))"
    unfolding Get_after_def run2 using e by (simp add: Get_contents)
  have 3: "Get_after [Put_op giant_key (V_uint32 1), Put_op [] (V_uint32 7), Remove_op giant_key]
       T_uint32 [] = Some None"
    unfolding Get_after_def run3 using n3 by simp
  have 4: "Get_after [Put_op ''a'' (V_uint32 1), Put_op ''ab'' (V_uint32 2), Remove_op ''a'']
       T_uint32 ''a'' = Some None"
    by code_simp
  have 5: "Get_after [Put_op ''a'' (V_uint32 1), Put_op ''ab'' (V_uint32 2), Remove_op ''a'']
       T_uint32 ''ab'' = Some (Some (V_uint32 2))"
    by code_simp
  show ?thesis using 1 2 3 4 5 by (intro conjI)
qed

text \<open>
  C4.  The round trip of \<open>Put\<close> and \<open>Remove\<close>.  As stated the claim fails: \<open>Put\<close>
  replaces the value a key already has and \<open>Remove\<close> then removes the key, so the old
  value is not back.  From the trie that holds \<open>1\<close> under \<open>"a"\<close>, \<open>Put("a", 2)\<close> and
  \<open>Remove("a")\<close> give a trie without \<open>"a"\<close>.
\<close>

theorem Put_Remove_round_trip_counterexample:
  "Get_after [Put_op ''a'' (V_uint32 1)] T_uint32 ''a'' = Some (Some (V_uint32 1))
   \<and> Get_after [Put_op ''a'' (V_uint32 1), Put_op ''a'' (V_uint32 2), Remove_op ''a''] T_uint32 ''a''
       = Some None"
  by code_simp

text \<open>
  C4, amended.  For a well-formed trie that holds no value under the key, and a key
  shorter than \<open>2\<^sup>3\<^sup>1\<close> bytes, \<open>Put\<close> and then \<open>Remove\<close> of the key return, and every
  \<open>Get\<close> on the trie they give returns what it returned on the trie before the \<open>Put\<close>.
\<close>

theorem Put_Remove_round_trip:
  assumes "wf_trie h t" and "length k < 2147483648" and "\<forall>T. Get h t T k = None"
  shows "\<exists>h1 t1 h2 t2. Put h t k v = Some (h1, t1) \<and> Remove h1 t1 k = Some (h2, t2) \<and>
           (\<forall>T k'. Get h2 t2 T k' = Get h t T k')"
proof -
  have none: "contents h t k = None" using assms(3) by (simp add: contents_None_iff)
  obtain h1 t1 where p: "Put h t k v = Some (h1, t1)"
    and c1: "contents h1 t1 = (contents h t)(k \<mapsto> v)"
    using Put_contents [of h t k v] assms(1,2) by blast
  have wf1: "wf_trie h1 t1" using assms(1) p by (rule Put_wf)
  obtain h2 t2 where r: "Remove h1 t1 k = Some (h2, t2)"
    and c2: "contents h2 t2 = (contents h1 t1)(k := None)"
    using Remove_contents [OF wf1 assms(2)] by blast
  have "contents h2 t2 = contents h t"
    using c1 c2 none by (auto simp: fun_eq_iff)
  then have "\<forall>T k'. Get h2 t2 T k' = Get h t T k'"
    using Get_eq_contents by blast
  then show ?thesis using p r by blast
qed

theorem Put_Remove_round_trip_witness:
  "wf_trie [\<lparr>children = [(CHR ''a'', 1)], node_value = None\<rparr>,
            \<lparr>children = [], node_value = Some (V_uint32 1)\<rparr>] \<lparr>root = Some 0\<rparr>
   \<and> length ''ab'' < 2147483648
   \<and> (\<exists>h1 t1 h2 t2.
         Put [\<lparr>children = [(CHR ''a'', 1)], node_value = None\<rparr>,
              \<lparr>children = [], node_value = Some (V_uint32 1)\<rparr>] \<lparr>root = Some 0\<rparr> ''ab'' (V_uint32 2)
           = Some (h1, t1)
       \<and> Remove h1 t1 ''ab'' = Some (h2, t2)
       \<and> Get h2 t2 T_uint32 ''a'' = Some (V_uint32 1)
       \<and> Get h2 t2 T_uint32 ''ab'' = None)"
proof -
  define H where "H = [\<lparr>children = [(CHR ''a'', 1)], node_value = None\<rparr>,
            \<lparr>children = [], node_value = Some (V_uint32 1)\<rparr>]"
  define T where "T = \<lparr>root = Some 0\<rparr>"
  have wf: "wf_trie H T" unfolding H_def T_def by code_simp
  have len: "length ''ab'' < 2147483648" by simp
  have "get_walk H 0 ''ab'' = None" unfolding H_def by code_simp
  then have absent: "\<forall>T'. Get H T T' ''ab'' = None" by (simp add: Get_def T_def)
  have a: "Get H T T_uint32 ''a'' = Some (V_uint32 1)" unfolding H_def T_def by code_simp
  obtain h1 t1 h2 t2 where "Put H T ''ab'' (V_uint32 2) = Some (h1, t1)"
    "Remove h1 t1 ''ab'' = Some (h2, t2)" "\<forall>T' k'. Get h2 t2 T' k' = Get H T T' k'"
    using Put_Remove_round_trip [OF wf len absent, of "V_uint32 2"] by blast
  then have "Put H T ''ab'' (V_uint32 2) = Some (h1, t1) \<and> Remove h1 t1 ''ab'' = Some (h2, t2)
     \<and> Get h2 t2 T_uint32 ''a'' = Some (V_uint32 1) \<and> Get h2 t2 T_uint32 ''ab'' = None"
    using a absent by simp
  then show ?thesis using wf len unfolding H_def T_def by blast
qed

text \<open>
  C5.  \<open>Remove\<close> prunes dead nodes at every level.  From a well-formed trie without dead
  nodes, \<open>Remove\<close> returns a trie whose root, when it has one, is not dead and reaches no
  dead node, along the key or elsewhere: a node of the rebuilt path that is left without
  children and without a value is erased from the node above it, and when this reaches
  the root the trie returned has no root.  For a key shorter than \<open>2\<^sup>3\<^sup>1\<close> bytes the
  trie returned holds what the trie held, the key apart.
\<close>

theorem Remove_prunes_dead_nodes:
  assumes "wf_trie h t" and "minimal h t"
  shows "\<exists>h' t'. Remove h t key = Some (h', t') \<and>
     (\<forall>r'. root t' = Some r' \<longrightarrow>
        \<not> (map_is_empty (children (h' ! r')) \<and> \<not> is_value_node (h' ! r')) \<and>
        (\<forall>k b. get_walk h' r' k = Some b \<longrightarrow>
           \<not> (map_is_empty (children (h' ! b)) \<and> \<not> is_value_node (h' ! b)))) \<and>
     (length key < 2147483648 \<longrightarrow>
        (\<forall>T k'. Get h' t' T k' = (if k' = key then None else Get h t T k')))"
proof -
  obtain h' t' where rm: "Remove h t key = Some (h', t')"
    using Remove_frame [OF assms(1), of key] by blast
  have mi: "minimal h' t'" using assms rm by (rule Remove_minimal)
  have 1: "\<not> (map_is_empty (children (h' ! b)) \<and> \<not> is_value_node (h' ! b))"
    if "root t' = Some r'" "get_walk h' r' k = Some b" for r' k b
    using mi that by (auto simp: minimal_def no_dead_def dead_def)
  have 2: "\<not> (map_is_empty (children (h' ! r')) \<and> \<not> is_value_node (h' ! r'))"
    if "root t' = Some r'" for r'
    using 1 [OF that, of "[]" r'] by simp
  have 3: "Get h' t' T k' = (if k' = key then None else Get h t T k')"
    if "length key < 2147483648" for T k'
  proof -
    have "contents h' t' = (contents h t)(key := None)"
      using Remove_contents [OF assms(1) that] rm by auto
    then show ?thesis by (simp add: Get_contents)
  qed
  show ?thesis using rm 1 2 3 by blast
qed

theorem Remove_prunes_dead_nodes_witness:
  "wf_trie [\<lparr>children = [(CHR ''a'', 1)], node_value = None\<rparr>,
            \<lparr>children = [(CHR ''b'', 2)], node_value = None\<rparr>,
            \<lparr>children = [], node_value = Some (V_uint32 1)\<rparr>] \<lparr>root = Some 0\<rparr>
   \<and> minimal [\<lparr>children = [(CHR ''a'', 1)], node_value = None\<rparr>,
            \<lparr>children = [(CHR ''b'', 2)], node_value = None\<rparr>,
            \<lparr>children = [], node_value = Some (V_uint32 1)\<rparr>] \<lparr>root = Some 0\<rparr>
   \<and> (\<exists>h'. Remove [\<lparr>children = [(CHR ''a'', 1)], node_value = None\<rparr>,
            \<lparr>children = [(CHR ''b'', 2)], node_value = None\<rparr>,
            \<lparr>children = [], node_value = Some (V_uint32 1)\<rparr>] \<lparr>root = Some 0\<rparr> ''ab''
         = Some (h', \<lparr>root = None\<rparr>) \<and> Get h' \<lparr>root = None\<rparr> T_uint32 ''ab'' = None)"
proof -
  define H where "H = [\<lparr>children = [(CHR ''a'', 1)], node_value = None\<rparr>,
            \<lparr>children = [(CHR ''b'', 2)], node_value = None\<rparr>,
            \<lparr>children = [], node_value = Some (V_uint32 1)\<rparr>]"
  define T where "T = \<lparr>root = Some (0::nat)\<rparr>"
  have wf: "wf_trie H T" unfolding H_def T_def by code_simp
  have put: "Put [] \<lparr>root = None\<rparr> ''ab'' (V_uint32 1) = Some (H, T)"
    unfolding H_def T_def by code_simp
  have mi: "minimal H T" using wf_trie_empty minimal_empty put by (rule Put_minimal)
  obtain h' t' where r: "Remove H T ''ab'' = Some (h', t')"
    and g: "length ''ab'' < 2147483648 \<longrightarrow>
        (\<forall>T' k'. Get h' t' T' k' = (if k' = ''ab'' then None else Get H T T' k'))"
    using Remove_prunes_dead_nodes [OF wf mi, of "''ab''"] by blast
  have "Remove H T ''ab'' = Some (H @ [\<lparr>children = [], node_value = None\<rparr>,
      \<lparr>children = [], node_value = None\<rparr>, \<lparr>children = [], node_value = None\<rparr>],
      \<lparr>root = None\<rparr>)"
    unfolding H_def T_def by code_simp
  then have t': "t' = \<lparr>root = None\<rparr>" using r by auto
  have "Get h' t' T_uint32 ''ab'' = None" using g by simp
  then show ?thesis using wf mi r t' unfolding H_def T_def by blast
qed

text \<open>
  C6.  Removing a key that is not there changes nothing: when the trie is empty, or
  the walk along the key fails at some byte, or the node at the end of the walk is not a
  value node, \<open>Remove\<close> returns the same store and a trie with the same root.
\<close>

theorem Remove_missing_key_unchanged:
  assumes "root t = None \<or>
           (\<exists>r. root t = Some r \<and>
                (get_walk h r key = None \<or>
                 (\<exists>cur. get_walk h r key = Some cur \<and> \<not> is_value_node (h ! cur))))"
  shows "Remove h t key = Some (h, t)"
  using assms by (rule Remove_noop)

theorem Remove_missing_key_unchanged_witness:
  "Remove [\<lparr>children = [(CHR ''a'', 1)], node_value = None\<rparr>,
           \<lparr>children = [], node_value = Some (V_uint32 1)\<rparr>] \<lparr>root = Some 0\<rparr> ''x''
     = Some ([\<lparr>children = [(CHR ''a'', 1)], node_value = None\<rparr>,
              \<lparr>children = [], node_value = Some (V_uint32 1)\<rparr>], \<lparr>root = Some 0\<rparr>)
   \<and> Remove [\<lparr>children = [(CHR ''a'', 1)], node_value = None\<rparr>,
           \<lparr>children = [], node_value = Some (V_uint32 1)\<rparr>] \<lparr>root = Some 0\<rparr> []
     = Some ([\<lparr>children = [(CHR ''a'', 1)], node_value = None\<rparr>,
              \<lparr>children = [], node_value = Some (V_uint32 1)\<rparr>], \<lparr>root = Some 0\<rparr>)
   \<and> Remove [] \<lparr>root = None\<rparr> ''x'' = Some ([], \<lparr>root = None\<rparr>)"
proof -
  let ?h = "[\<lparr>children = [(CHR ''a'', 1)], node_value = None\<rparr>,
             \<lparr>children = [], node_value = Some (V_uint32 1)\<rparr>]"
  have 1: "get_walk ?h 0 ''x'' = None"
    by (simp add: map_find_def)
  have 2: "get_walk ?h 0 [] = Some 0 \<and> \<not> is_value_node (?h ! 0)"
    by (simp add: is_value_node_def)
  show ?thesis
    using Remove_missing_key_unchanged [of "\<lparr>root = Some 0\<rparr>" ?h "''x''"]
      Remove_missing_key_unchanged [of "\<lparr>root = Some 0\<rparr>" ?h "[]"]
      Remove_missing_key_unchanged [of "\<lparr>root = None\<rparr>" "[]" "''x''"] 1 2
    by simp
qed

text \<open>
  C7.  A type mismatch is an absent result, the same result as for a key that is not in
  the trie: when the walk along the key ends at a node holding a value whose type is
  not the requested type, \<open>Get\<close> returns \<open>None\<close>, as it does for a key whose walk fails.
\<close>

theorem Get_type_mismatch_absent:
  assumes "root t = Some r" and "get_walk h r key = Some cur"
    and "node_value (h ! cur) = Some v" and "type_of v \<noteq> T"
    and "get_walk h r key' = None"
  shows "is_value_node (h ! cur) \<and> Get h t T key = None \<and> Get h t T key = Get h t T key'"
  using assms by (simp add: Get_def is_value_node_def dynamic_pointer_cast_def)

theorem Get_type_mismatch_absent_witness:
  "Get [\<lparr>children = [(CHR ''k'', 1)], node_value = None\<rparr>,
        \<lparr>children = [], node_value = Some (V_uint32 1)\<rparr>] \<lparr>root = Some 0\<rparr> T_string ''k'' = None
   \<and> Get [\<lparr>children = [(CHR ''k'', 1)], node_value = None\<rparr>,
        \<lparr>children = [], node_value = Some (V_uint32 1)\<rparr>] \<lparr>root = Some 0\<rparr> T_string ''k''
     = Get [\<lparr>children = [(CHR ''k'', 1)], node_value = None\<rparr>,
        \<lparr>children = [], node_value = Some (V_uint32 1)\<rparr>] \<lparr>root = Some 0\<rparr> T_string ''x''"
proof -
  let ?h = "[\<lparr>children = [(CHR ''k'', 1)], node_value = None\<rparr>,
             \<lparr>children = [], node_value = Some (V_uint32 1)\<rparr>]"
  have 1: "get_walk ?h 0 ''k'' = Some 1" by (simp add: map_find_def)
  have 2: "node_value (?h ! 1) = Some (V_uint32 1)" by simp
  have 3: "type_of (V_uint32 1) \<noteq> T_string" by simp
  have 4: "get_walk ?h 0 ''x'' = None" by (simp add: map_find_def)
  have 0: "root \<lparr>root = Some 0\<rparr> = Some 0" by simp
  show ?thesis
    using Get_type_mismatch_absent [OF 0 1 2 3 4] by auto
qed

text \<open>
  C8.  The empty key.  \<open>Put\<close> with the empty key adds one node to the store, a value
  node with the children of the old root, or without children when the trie was empty,
  and returns it as the new root; no other node of the store changes.  From the empty
  trie, \<open>Put("", 42)\<close> gives \<open>Get("") = 42\<close>, and so it is still after \<open>Put("a", 1)\<close>.
\<close>

theorem Put_empty_key_root:
  "Put h t [] v =
     Some (h @ [TrieNodeWithValue (case root t of None \<Rightarrow> [] | Some r \<Rightarrow> children (h ! r)) v],
           \<lparr>root = Some (length h)\<rparr>)
   \<and> Get_after [Put_op [] (V_uint32 42)] T_uint32 [] = Some (Some (V_uint32 42))
   \<and> Get_after [Put_op [] (V_uint32 42), Put_op ''a'' (V_uint32 1)] T_uint32 []
       = Some (Some (V_uint32 42))"
proof (intro conjI)
  show "Put h t [] v =
     Some (h @ [TrieNodeWithValue (case root t of None \<Rightarrow> [] | Some r \<Rightarrow> children (h ! r)) v],
           \<lparr>root = Some (length h)\<rparr>)"
    by (rule Put_empty_key)
  show "Get_after [Put_op [] (V_uint32 42)] T_uint32 [] = Some (Some (V_uint32 42))"
    by code_simp
  show "Get_after [Put_op [] (V_uint32 42), Put_op ''a'' (V_uint32 1)] T_uint32 []
       = Some (Some (V_uint32 42))"
    by code_simp
qed

theorem Put_empty_key_root_witness:
  "Put [\<lparr>children = [(CHR ''a'', 1)], node_value = None\<rparr>,
        \<lparr>children = [], node_value = Some (V_uint32 1)\<rparr>] \<lparr>root = Some 0\<rparr> [] (V_uint32 42)
   = Some ([\<lparr>children = [(CHR ''a'', 1)], node_value = None\<rparr>,
            \<lparr>children = [], node_value = Some (V_uint32 1)\<rparr>,
            \<lparr>children = [(CHR ''a'', 1)], node_value = Some (V_uint32 42)\<rparr>], \<lparr>root = Some 2\<rparr>)"
  using Put_empty_key_root [of "[\<lparr>children = [(CHR ''a'', 1)], node_value = None\<rparr>,
        \<lparr>children = [], node_value = Some (V_uint32 1)\<rparr>]" "\<lparr>root = Some 0\<rparr>" "V_uint32 42"]
  by (simp add: TrieNodeWithValue_def)

text \<open>
  C9.  Tries stay minimal.  The trie at the end of any sequence of \<open>Put\<close> and
  \<open>Remove\<close> calls that starts from the empty trie reaches no node with an empty
  children mapping and no value, and every \<open>Put\<close> and \<open>Remove\<close> on it returns a
  trie that reaches none either; \<open>Remove\<close> always returns, and \<open>Put\<close> returns for
  every key shorter than \<open>2\<^sup>3\<^sup>1\<close> bytes.
\<close>

theorem tries_stay_minimal:
  assumes "closed_heap h0" and "run_ops (h0, \<lparr>root = None\<rparr>) ops = Some (h, t)"
  shows "(\<forall>r key b. root t = Some r \<longrightarrow> get_walk h r key = Some b \<longrightarrow>
            \<not> (map_is_empty (children (h ! b)) \<and> \<not> is_value_node (h ! b)))
       \<and> (\<forall>key v h' t'. Put h t key v = Some (h', t') \<longrightarrow> minimal h' t')
       \<and> (\<forall>key. \<exists>h' t'. Remove h t key = Some (h', t') \<and> minimal h' t')
       \<and> (\<forall>key v. length key < 2147483648 \<longrightarrow>
            (\<exists>h' t'. Put h t key v = Some (h', t') \<and> minimal h' t'))"
proof -
  have "wf_trie h0 \<lparr>root = None\<rparr> \<and> minimal h0 \<lparr>root = None\<rparr>"
    using assms(1) by (simp add: wf_trie_def minimal_def)
  then have inv: "wf_trie h t \<and> minimal h t"
    using assms(2) by (rule run_ops_invariant)
  have 1: "\<forall>r key b. root t = Some r \<longrightarrow> get_walk h r key = Some b \<longrightarrow>
            \<not> (map_is_empty (children (h ! b)) \<and> \<not> is_value_node (h ! b))"
    using inv by (auto simp: minimal_def no_dead_def dead_def)
  have 2: "\<forall>key v h' t'. Put h t key v = Some (h', t') \<longrightarrow> minimal h' t'"
    using inv Put_minimal by blast
  have 3: "\<exists>h' t'. Remove h t key = Some (h', t') \<and> minimal h' t'" for key
    using inv Remove_frame [of h t key] Remove_minimal [of h t key] by blast
  have 4: "\<exists>h' t'. Put h t key v = Some (h', t') \<and> minimal h' t'"
    if b: "length key < 2147483648" for key v
  proof -
    obtain h' t' where "Put h t key v = Some (h', t')"
      using Put_contents [of h t key v] inv b by blast
    then show ?thesis using 2 by blast
  qed
  show ?thesis using 1 2 3 4 by blast
qed

theorem tries_stay_minimal_witness:
  "closed_heap [] \<and>
   (\<exists>h t. run_ops ([], \<lparr>root = None\<rparr>)
        [Put_op ''ab'' (V_uint32 1), Put_op ''a'' (V_uint32 2), Remove_op ''ab''] = Some (h, t)
      \<and> root t = Some 7 \<and> get_walk h 7 ''a'' = Some 6
      \<and> \<not> (map_is_empty (children (h ! 6)) \<and> \<not> is_value_node (h ! 6)))"
proof -
  define H where "H = [\<lparr>children = [(CHR ''a'', 1)], node_value = None\<rparr>,
    \<lparr>children = [(CHR ''b'', 2)], node_value = None\<rparr>,
    \<lparr>children = [], node_value = Some (V_uint32 1)\<rparr>,
    \<lparr>children = [(CHR ''a'', 4)], node_value = None\<rparr>,
    \<lparr>children = [(CHR ''b'', 2)], node_value = Some (V_uint32 2)\<rparr>,
    \<lparr>children = [], node_value = None\<rparr>,
    \<lparr>children = [], node_value = Some (V_uint32 2)\<rparr>,
    \<lparr>children = [(CHR ''a'', 6)], node_value = None\<rparr>]"
  have c: "closed_heap []" by (simp add: closed_heap_def)
  have r: "run_ops ([], \<lparr>root = None\<rparr>)
        [Put_op ''ab'' (V_uint32 1), Put_op ''a'' (V_uint32 2), Remove_op ''ab''] = Some (H, \<lparr>root = Some 7\<rparr>)"
    unfolding H_def by code_simp
  have w: "get_walk H 7 ''a'' = Some 6" unfolding H_def by code_simp
  have m: "\<And>r key b. root \<lparr>root = Some 7\<rparr> = Some r \<Longrightarrow> get_walk H r key = Some b \<Longrightarrow>
            \<not> (map_is_empty (children (H ! b)) \<and> \<not> is_value_node (H ! b))"
    using tries_stay_minimal [OF c r] by blast
  have "\<not> (map_is_empty (children (H ! 6)) \<and> \<not> is_value_node (H ! 6))"
    by (rule m [OF _ w]) simp
  then show ?thesis using c r w by (intro conjI exI [of _ H] exI [of _ "\<lparr>root = Some 7\<rparr>"]) simp_all
qed

text \<open>
  C10.  \<open>Put\<close> commutes on distinct keys.  The code fails the claim for a key of
  \<open>2\<^sup>3\<^sup>1 + 1\<close> bytes put into a trie that has a root: line 114 turns the length of the
  key into an \<^verbatim>\<open>int\<close>, here a negative one, the loop that makes the fresh nodes is not
  entered, and the value goes one byte below the last node of the key that was there
  already.  After \<open>Put("", 7)\<close>, \<open>Put\<close> of the long key and then \<open>Put("a", 2)\<close> leave
  nothing under \<open>"aa"\<close>; \<open>Put("a", 2)\<close> and then \<open>Put\<close> of the long key leave the value
  of the long key there.
\<close>

theorem Put_giant_key_order:
  "Get_after [Put_op [] (V_uint32 7), Put_op giant_key (V_uint32 1), Put_op ''a'' (V_uint32 2)]
     T_uint32 ''aa'' = Some None
   \<and> Get_after [Put_op [] (V_uint32 7), Put_op ''a'' (V_uint32 2), Put_op giant_key (V_uint32 1)]
     T_uint32 ''aa'' = Some (Some (V_uint32 1))"
proof -
  define n7 where "n7 = \<lparr>children = [], node_value = Some (V_uint32 7)\<rparr>"
  define A where "A = [n7, \<lparr>children = [(CHR ''a'', 2)], node_value = Some (V_uint32 7)\<rparr>,
            \<lparr>children = [], node_value = Some (V_uint32 1)\<rparr>]"
  define B where "B = [n7, \<lparr>children = [(CHR ''a'', 2)], node_value = Some (V_uint32 7)\<rparr>,
            \<lparr>children = [], node_value = Some (V_uint32 2)\<rparr>]"
  define B' where "B' = B @ [\<lparr>children = [(CHR ''a'', 4)], node_value = Some (V_uint32 7)\<rparr>,
            \<lparr>children = [(CHR ''a'', 5)], node_value = Some (V_uint32 2)\<rparr>,
            \<lparr>children = [], node_value = Some (V_uint32 1)\<rparr>]"
  have p0: "Put [] \<lparr>root = None\<rparr> [] (V_uint32 7) = Some ([n7], \<lparr>root = Some 0\<rparr>)"
    unfolding n7_def by code_simp
  have wa: "put_walk [n7] 0 giant_key [] = ([], giant_key)"
    unfolding giant_key_Cons n7_def by simp
  have r0: "root \<lparr>root = Some 0\<rparr> = Some 0" by simp
  have fa: "put_fresh_loop h p giant_key 0 = Some (h, p)" for h p
    by (rule put_fresh_loop_giant_key) simp
  have "Put [n7] \<lparr>root = Some 0\<rparr> giant_key (V_uint32 1)
      = Some (assign_child ([n7, Clone n7] @ [TrieNodeWithValue_leaf (V_uint32 1)]) 1 (CHR ''a'') 2,
              \<lparr>root = Some 1\<rparr>)"
    unfolding Put_some_root [OF giant_key_not_Nil r0 wa]
    by (simp add: giant_key_not_Nil fa giant_key_last numeral_2_eq_2)
  then have pa: "Put [n7] \<lparr>root = Some 0\<rparr> giant_key (V_uint32 1) = Some (A, \<lparr>root = Some 1\<rparr>)"
    by (simp add: A_def n7_def Clone_def TrieNodeWithValue_leaf_def assign_child_def
        set_children_def map_assign_def)
  have pb: "Put [n7] \<lparr>root = Some 0\<rparr> ''a'' (V_uint32 2) = Some (B, \<lparr>root = Some 1\<rparr>)"
    unfolding n7_def B_def by code_simp
  have wb: "put_walk B 1 giant_key [] = ([2], CHR ''a'' # replicate 2147483647 (CHR ''a''))"
    unfolding giant_key_Cons B_def n7_def by (simp add: map_find_def)
  have four: "Suc (Suc (Suc (Suc 0))) = 4" by simp
  have plb: "put_prefix_loop (B @ [n]) 3 giant_key [2] 0
      = Some (assign_child (B @ [n, Clone (B ! 2)]) 3 (CHR ''a'') 4, 4, 1)" for n
    unfolding giant_key_Cons by (simp add: make_shared_def B_def to_int32_def nth_append four)
  have r1: "root \<lparr>root = Some 1\<rparr> = Some 1" by simp
  have lb: "length B = 3" by (simp add: B_def)
  have fb: "put_fresh_loop h p giant_key 1 = Some (h, p)" for h p
    by (rule put_fresh_loop_giant_key) simp
  have "Put B \<lparr>root = Some 1\<rparr> giant_key (V_uint32 1)
      = Some (assign_child
               (assign_child (B @ [Clone (B ! 1), Clone (B ! 2)]) 3 (CHR ''a'') 4
                  @ [TrieNodeWithValue_leaf (V_uint32 1)]) 4 (CHR ''a'') 5,
              \<lparr>root = Some 3\<rparr>)"
    unfolding Put_some_root [OF giant_key_not_Nil r1 wb] lb plb
    by (simp add: fb giant_key_last lb)
  then have pab: "Put B \<lparr>root = Some 1\<rparr> giant_key (V_uint32 1) = Some (B', \<lparr>root = Some 3\<rparr>)"
    by (simp add: B'_def B_def n7_def Clone_def TrieNodeWithValue_leaf_def assign_child_def
        set_children_def map_assign_def)
  define A' where "A' = A @ [\<lparr>children = [(CHR ''a'', 4)], node_value = Some (V_uint32 7)\<rparr>,
            \<lparr>children = [], node_value = Some (V_uint32 2)\<rparr>]"
  have paa: "Put A \<lparr>root = Some 1\<rparr> ''a'' (V_uint32 2) = Some (A', \<lparr>root = Some 3\<rparr>)"
    unfolding A'_def A_def n7_def by code_simp
  have ga: "Get A' \<lparr>root = Some 3\<rparr> T_uint32 ''aa'' = None"
    unfolding A'_def A_def n7_def by code_simp
  have gb: "Get B' \<lparr>root = Some 3\<rparr> T_uint32 ''aa'' = Some (V_uint32 1)"
    unfolding B'_def B_def n7_def by code_simp
  have ra: "run_ops ([], \<lparr>root = None\<rparr>)
      [Put_op [] (V_uint32 7), Put_op giant_key (V_uint32 1), Put_op ''a'' (V_uint32 2)]
      = Some (A', \<lparr>root = Some 3\<rparr>)"
    using p0 pa paa by simp
  have rb: "run_ops ([], \<lparr>root = None\<rparr>)
      [Put_op [] (V_uint32 7), Put_op ''a'' (V_uint32 2), Put_op giant_key (V_uint32 1)]
      = Some (B', \<lparr>root = Some 3\<rparr>)"
    using p0 pb pab by simp
  show ?thesis
    unfolding Get_after_def ra rb using ga gb by simp
qed

end
